theory Spec2Isabelle
  imports Main "HOL-Library.Sublist" "HOL-Library.AList" "HOL-Library.Multiset"
begin

section \<open>Python strings\<close>

text \<open>
  A Python \<^verbatim>\<open>str\<close> is a sequence of Unicode code points, and every offset in the
  three programs is an index into that sequence.  Addresses are Chinese text, so a string
  is modelled as the list of its code points; \<open>ascii\<close> embeds the ASCII literals of the
  source (\<^verbatim>\<open>'poi'\<close>, \<^verbatim>\<open>'B-'\<close>, \<^verbatim>\<open>','\<close>).
\<close>

type_synonym pystr = "nat list"

definition ascii :: "string \<Rightarrow> pystr" where
  "ascii s = map of_char s"

definition comma :: nat where
  "comma = 44"

definition hyphen :: nat where
  "hyphen = 45"

text \<open>\<^verbatim>\<open>str.isspace\<close> of one code point: the white space that \<^verbatim>\<open>str.strip()\<close> removes.\<close>

definition py_isspace :: "nat \<Rightarrow> bool" where
  "py_isspace c \<longleftrightarrow>
     (9 \<le> c \<and> c \<le> 13) \<or> (28 \<le> c \<and> c \<le> 32) \<or> c = 133 \<or> c = 160 \<or> c = 5760 \<or>
     (8192 \<le> c \<and> c \<le> 8202) \<or> c = 8232 \<or> c = 8233 \<or> c = 8239 \<or> c = 8287 \<or> c = 12288"

definition py_strip :: "pystr \<Rightarrow> pystr" where
  "py_strip s = rev (dropWhile py_isspace (rev (dropWhile py_isspace s)))"

text \<open>\<^verbatim>\<open>s.split(sep)\<close> for a separator of one character: never an empty list.\<close>

fun py_split :: "nat \<Rightarrow> pystr \<Rightarrow> pystr list" where
  "py_split sep [] = [[]]"
| "py_split sep (c # cs) =
     (if c = sep then [] # py_split sep cs
      else (c # hd (py_split sep cs)) # tl (py_split sep cs))"

text \<open>\<^verbatim>\<open>s[a:b]\<close> for offsets \<open>0 \<le> a\<close>, \<open>0 \<le> b\<close>: out-of-range bounds are clipped.\<close>

definition py_slice :: "'a list \<Rightarrow> nat \<Rightarrow> nat \<Rightarrow> 'a list" where
  "py_slice s a b = drop a (take b s)"

text \<open>
  \<^verbatim>\<open>s.find(sub, start)\<close>: the lowest offset \<open>p \<ge> start\<close> with \<^verbatim>\<open>s[p:p+len(sub)] == sub\<close>;
  \<open>None\<close> stands for the result \<^verbatim>\<open>-1\<close>.  The empty string is found at \<open>start\<close> itself
  as long as \<open>start \<le> len(s)\<close>.
\<close>

fun find_at :: "pystr \<Rightarrow> pystr \<Rightarrow> nat \<Rightarrow> nat option" where
  "find_at [] sub i = (if sub = [] then Some i else None)"
| "find_at (c # cs) sub i = (if prefix sub (c # cs) then Some i else find_at cs sub (Suc i))"

definition py_find :: "pystr \<Rightarrow> pystr \<Rightarrow> nat \<Rightarrow> nat option" where
  "py_find s sub start = (if start \<le> length s then find_at (drop start s) sub start else None)"

text \<open>The one-character strings of \<^verbatim>\<open>for char in s\<close>.\<close>

definition chars :: "pystr \<Rightarrow> pystr list" where
  "chars s = map (\<lambda>c. [c]) s"

section \<open>The encoder: \<^verbatim>\<open>convert_address_to_token\<close>\<close>

text \<open>
  \<^verbatim>\<open>src/data/convert_entity_to_token.py\<close>.  The component dictionary is an association
  list in insertion order (the order of \<^verbatim>\<open>.items()\<close>); its values are strings.  An entry
  of \<^verbatim>\<open>entity_positions\<close> is the dictionary with the keys \<^verbatim>\<open>start\<close>, \<^verbatim>\<open>end\<close>, \<^verbatim>\<open>text\<close>
  and \<^verbatim>\<open>type\<close>.
\<close>

record entity_position =
  ep_start :: nat
  ep_end :: nat
  ep_text :: pystr
  ep_type :: pystr

record token_data =
  tokens :: "pystr list"
  ner_tags :: "pystr list"
  td_text :: pystr

text \<open>Lines 32--35: a value holding a comma is split and each piece trimmed.\<close>

definition candidate_entities :: "pystr \<Rightarrow> pystr list" where
  "candidate_entities component_value =
     (if comma \<in> set component_value then map py_strip (py_split comma component_value)
      else [component_value])"

text \<open>Lines 37--49: an empty piece is skipped, a piece that is not found is dropped.\<close>

definition locate_entity :: "pystr \<Rightarrow> pystr \<Rightarrow> pystr \<Rightarrow> entity_position list" where
  "locate_entity original_address component_type entity =
     (if entity = [] then []
      else case py_find original_address entity 0 of
             None \<Rightarrow> []
           | Some start_pos \<Rightarrow>
               [\<lparr>ep_start = start_pos, ep_end = start_pos + length entity,
                 ep_text = entity, ep_type = component_type\<rparr>])"

definition entity_positions :: "(pystr \<times> pystr) list \<Rightarrow> pystr \<Rightarrow> entity_position list" where
  "entity_positions address_components original_address =
     concat (map (\<lambda>(component_type, component_value).
                    if component_value = [] then []
                    else concat (map (locate_entity original_address component_type)
                                     (candidate_entities component_value)))
                 address_components)"

text \<open>Lines 68--81: the tag of the \<open>i\<close>-th character of an entity.\<close>

definition bioes_tag :: "pystr \<Rightarrow> nat \<Rightarrow> nat \<Rightarrow> pystr" where
  "bioes_tag ty entity_length i =
     (if entity_length = 1 then ascii ''S-'' @ ty
      else if i = 0 then ascii ''B-'' @ ty
      else if i = entity_length - 1 then ascii ''E-'' @ ty
      else ascii ''I-'' @ ty)"

definition entity_tags :: "pystr \<Rightarrow> pystr \<Rightarrow> pystr list" where
  "entity_tags ty entity_text =
     map (bioes_tag ty (length entity_text)) [0..<length entity_text]"

definition tag_O :: pystr where
  "tag_O = ascii ''O''"

text \<open>
  Lines 56--83, one round of the loop over the sorted positions.  The state is
  \<^verbatim>\<open>(tokens, ner_tags, current_pos)\<close>.  Only the gap is guarded by
  \<^verbatim>\<open>current_pos < entity['start']\<close>; the entity text is appended whole in every round
  and \<^verbatim>\<open>current_pos\<close> is overwritten with the entity's end.
\<close>

definition emit_entity ::
  "pystr \<Rightarrow> entity_position \<Rightarrow> pystr list \<times> pystr list \<times> nat \<Rightarrow> pystr list \<times> pystr list \<times> nat" where
  "emit_entity original_address entity st =
     (case st of (toks, tags, current_pos) \<Rightarrow>
        let gap_text = (if current_pos < ep_start entity
                        then py_slice original_address current_pos (ep_start entity) else [])
        in (toks @ chars gap_text @ chars (ep_text entity),
            tags @ replicate (length gap_text) tag_O @ entity_tags (ep_type entity) (ep_text entity),
            ep_end entity))"

text \<open>\<^verbatim>\<open>list.sort(key=...)\<close> is stable, as \<open>sort_key\<close> is.\<close>

definition sorted_positions :: "(pystr \<times> pystr) list \<Rightarrow> pystr \<Rightarrow> entity_position list" where
  "sorted_positions address_components original_address =
     sort_key ep_start (entity_positions address_components original_address)"

definition convert_address_to_token :: "(pystr \<times> pystr) list \<Rightarrow> pystr \<Rightarrow> token_data" where
  "convert_address_to_token address_components original_address =
     (case fold (emit_entity original_address)
                (sorted_positions address_components original_address) ([], [], 0) of
        (toks, tags, current_pos) \<Rightarrow>
          let remaining_text = (if current_pos < length original_address
                                then drop current_pos original_address else [])
          in \<lparr>tokens = toks @ chars remaining_text,
              ner_tags = tags @ replicate (length remaining_text) tag_O,
              td_text = original_address\<rparr>)"

section \<open>The decoder: \<^verbatim>\<open>extract_entities_from_tokens\<close>\<close>

text \<open>
  \<^verbatim>\<open>src/inference_service/convert_tokens_to_entities.py\<close>, lines 30--101.  The result
  \<^verbatim>\<open>Dict[str, List[str]]\<close> is an association list in insertion order.  The loop state is
  \<^verbatim>\<open>(entities, current_entity, current_tokens)\<close>, where \<^verbatim>\<open>current_entity\<close> is
  \<^verbatim>\<open>None\<close> or the tag that opened the entity.
\<close>

type_synonym entities_dict = "(pystr \<times> pystr list) list"

type_synonym dec_state = "entities_dict \<times> pystr option \<times> pystr list"

text \<open>
  \<^verbatim>\<open>if entity_type not in entities: entities[entity_type] = []\<close> followed by
  \<^verbatim>\<open>entities[entity_type].append(entity_text)\<close>.
\<close>

definition entities_append :: "pystr \<Rightarrow> pystr \<Rightarrow> entities_dict \<Rightarrow> entities_dict" where
  "entities_append entity_type entity_text entities =
     AList.update entity_type
       ((case map_of entities entity_type of None \<Rightarrow> [] | Some vs \<Rightarrow> vs) @ [entity_text])
       entities"

text \<open>\<^verbatim>\<open>s.split('-', 1)[1]\<close>, for a string that holds a hyphen: what follows the first one.\<close>

definition after_hyphen :: "pystr \<Rightarrow> pystr" where
  "after_hyphen s = tl (dropWhile (\<lambda>c. c \<noteq> hyphen) s)"

text \<open>\<^verbatim>\<open>current_entity.split('-', 1)[1] if '-' in current_entity else current_entity\<close>\<close>

definition entity_type_of :: "pystr \<Rightarrow> pystr" where
  "entity_type_of current_entity =
     (if hyphen \<in> set current_entity then after_hyphen current_entity else current_entity)"

text \<open>
  The block guarded by \<^verbatim>\<open>if current_entity and current_tokens\<close> (lines 48--53, 84--89 and
  94--99): \<^verbatim>\<open>None\<close>, the empty string and the empty list are false.
\<close>

definition save_entity :: "pystr option \<Rightarrow> pystr list \<Rightarrow> entities_dict \<Rightarrow> entities_dict" where
  "save_entity current_entity current_tokens entities =
     (case current_entity of
        None \<Rightarrow> entities
      | Some ce \<Rightarrow>
          if ce \<noteq> [] \<and> current_tokens \<noteq> []
          then entities_append (entity_type_of ce) (concat current_tokens) entities
          else entities)"

definition truthy :: "pystr option \<Rightarrow> bool" where
  "truthy current_entity = (case current_entity of None \<Rightarrow> False | Some ce \<Rightarrow> ce \<noteq> [])"

text \<open>Lines 46--91, one round of the loop over \<^verbatim>\<open>zip(tokens, ner_tags)\<close>.\<close>

definition extract_step :: "pystr \<times> pystr \<Rightarrow> dec_state \<Rightarrow> dec_state" where
  "extract_step tt st =
     (case tt of (token, tag) \<Rightarrow>
      case st of (entities, current_entity, current_tokens) \<Rightarrow>
        if prefix (ascii ''B-'') tag \<or> prefix (ascii ''S-'') tag then
          (let entities1 = save_entity current_entity current_tokens entities in
           if prefix (ascii ''S-'') tag
           then (entities_append (after_hyphen tag) (concat [token]) entities1, None, [])
           else (entities1, Some tag, [token]))
        else if prefix (ascii ''I-'') tag \<and> truthy current_entity then
          (entities, current_entity, current_tokens @ [token])
        else if prefix (ascii ''E-'') tag \<and> truthy current_entity then
          (case current_entity of
             None \<Rightarrow> (entities, None, [])
           | Some ce \<Rightarrow>
               (entities_append (entity_type_of ce) (concat (current_tokens @ [token])) entities,
                None, []))
        else (save_entity current_entity current_tokens entities, None, []))"

definition extract_entities_from_tokens :: "pystr list \<Rightarrow> pystr list \<Rightarrow> entities_dict" where
  "extract_entities_from_tokens toks tags =
     (case fold extract_step (zip toks tags) ([], None, []) of
        (entities, current_entity, current_tokens) \<Rightarrow>
          save_entity current_entity current_tokens entities)"

section \<open>The level classifier: \<^verbatim>\<open>classify_elements_to_11_levels\<close>\<close>

text \<open>
  \<^verbatim>\<open>src/inference_service/convert_to_11_levels.py\<close>, lines 12--451.  The annotations are
  \<^verbatim>\<open>Dict[str, str]\<close> and \<^verbatim>\<open>str\<close>, but both arguments come from \<^verbatim>\<open>json.loads\<close> (line 472)
  or from the decoder, so \<^verbatim>\<open>original_text\<close> and the values of \<^verbatim>\<open>entities\<close> are modelled
  as the values JSON can hold: a string, \<^verbatim>\<open>None\<close>, a boolean, an integer, a float (by
  significand and exponent; the body never computes with one), a list, or a dictionary with
  string keys.  \<^verbatim>\<open>entities\<close> itself is a dictionary with string keys, an association list
  in the order of \<^verbatim>\<open>.items()\<close>.

  An exception is a value of \<open>py_error\<close>.  The recursion of \<^verbatim>\<open>find_value\<close> is bounded by
  the interpreter: \<open>depth\<close> is the number of activations of \<^verbatim>\<open>find_value\<close> that can still
  be nested when the function is called, and the activation beyond it raises
  \<^verbatim>\<open>RecursionError\<close>.  An activation is counted with the frame of the generator expression
  of line 34 and the built-ins it calls, so \<open>depth\<close> is below the recursion limit of the
  interpreter, 1000 unless it is changed.  The calls of \<^verbatim>\<open>logger\<close> are taken to return.
\<close>

datatype pyval = PStr pystr | PNone | PBool bool | PInt int | PFloat int int
  | PList "pyval list" | PDict "(pystr \<times> pyval) list"

datatype py_error = TypeError | AttributeError | KeyError | RecursionError

type_synonym span = "nat \<times> nat"

type_synonym indices = "(pystr \<times> span list) list"

text \<open>
  Lines 28--39.  \<^verbatim>\<open>used_indices\<close> is the set shared by all calls; it is passed in and
  returned.  The recursive call restarts the search at the end of the window in conflict.
  \<^verbatim>\<open>addr.find\<close> is an \<^verbatim>\<open>AttributeError\<close> when \<^verbatim>\<open>addr\<close> is not a string, and
  \<^verbatim>\<open>addr.find(value, start)\<close> a \<^verbatim>\<open>TypeError\<close> when \<^verbatim>\<open>value\<close> is not one.
\<close>

fun find_value ::
  "nat \<Rightarrow> pyval \<Rightarrow> pyval \<Rightarrow> nat \<Rightarrow> nat set \<Rightarrow> py_error + span option \<times> nat set" where
  "find_value depth addr v start used_indices =
     (if depth = 0 then Inl RecursionError
      else case addr of
             PStr a \<Rightarrow>
               (case v of
                  PStr s \<Rightarrow>
                    (case py_find a s start of
                       None \<Rightarrow> Inr (None, used_indices)
                     | Some pos \<Rightarrow>
                         if \<exists>i\<in>used_indices. pos \<le> i \<and> i < pos + length s
                         then find_value (depth - 1) addr v (pos + length s) used_indices
                         else Inr (Some (pos, pos + length s),
                                   used_indices \<union> {pos..<pos + length s}))
                | _ \<Rightarrow> Inl TypeError)
           | _ \<Rightarrow> Inl AttributeError)"

text \<open>The equation of \<open>find_value\<close> is recursive without a guard the simplifier can
  decide, so it is unfolded by hand.\<close>

declare find_value.simps [simp del]

text \<open>Lines 46--52: the pieces of a comma-separated value, each trimmed and searched from 0.\<close>

fun locate_values ::
  "nat \<Rightarrow> pyval \<Rightarrow> pystr list \<Rightarrow> span list \<Rightarrow> nat set \<Rightarrow> py_error + span list \<times> nat set" where
  "locate_values depth addr [] found used_indices = Inr (found, used_indices)"
| "locate_values depth addr (v # vs) found used_indices =
     (case find_value depth addr (PStr (py_strip v)) 0 used_indices of
        Inl e \<Rightarrow> Inl e
      | Inr (None, used1) \<Rightarrow> locate_values depth addr vs found used1
      | Inr (Some index, used1) \<Rightarrow> locate_values depth addr vs (found @ [index]) used1)"

text \<open>Lines 54--58: a value without a comma is searched as it is.\<close>

definition locate_value ::
  "nat \<Rightarrow> pyval \<Rightarrow> pystr \<Rightarrow> pyval \<Rightarrow> indices \<times> nat set \<Rightarrow> py_error + indices \<times> nat set" where
  "locate_value depth addr key val st =
     (case st of (indices, used_indices) \<Rightarrow>
        (case find_value depth addr val 0 used_indices of
           Inl e \<Rightarrow> Inl e
         | Inr (None, used1) \<Rightarrow> Inr (indices, used1)
         | Inr (Some index, used1) \<Rightarrow> Inr (AList.update key [index] indices, used1)))"

text \<open>
  Lines 42--58, one round of the loop over \<^verbatim>\<open>entities.items()\<close>.  \<^verbatim>\<open>',' in value\<close> is a
  \<^verbatim>\<open>TypeError\<close> for \<^verbatim>\<open>None\<close>, a boolean and a number; it is the membership test for a list
  and the key test for a dictionary, and neither of these has \<^verbatim>\<open>split\<close>.
\<close>

definition index_entry ::
  "nat \<Rightarrow> pyval \<Rightarrow> pystr \<times> pyval \<Rightarrow> indices \<times> nat set \<Rightarrow> py_error + indices \<times> nat set" where
  "index_entry depth addr kv st =
     (case kv of (key, val) \<Rightarrow>
        (case val of
           PStr s \<Rightarrow>
             if comma \<in> set s then
               (case locate_values depth addr (py_split comma s) [] (snd st) of
                  Inl e \<Rightarrow> Inl e
                | Inr (found, used1) \<Rightarrow> Inr (AList.update key found (fst st), used1))
             else locate_value depth addr key val st
         | PList l \<Rightarrow>
             if PStr [comma] \<in> set l then Inl AttributeError
             else locate_value depth addr key val st
         | PDict d \<Rightarrow>
             if [comma] \<in> fst ` set d then Inl AttributeError
             else locate_value depth addr key val st
         | _ \<Rightarrow> Inl TypeError))"

fun build_indices ::
  "nat \<Rightarrow> pyval \<Rightarrow> (pystr \<times> pyval) list \<Rightarrow> indices \<times> nat set \<Rightarrow>
   py_error + indices \<times> nat set" where
  "build_indices depth addr [] st = Inr st"
| "build_indices depth addr (kv # kvs) st =
     (case index_entry depth addr kv st of
        Inl e \<Rightarrow> Inl e
      | Inr st1 \<Rightarrow> build_indices depth addr kvs st1)"

text \<open>
  \<^verbatim>\<open>for key in keys: if key in indices and indices[key]: for start, end in indices[key]\<close>:
  the spans of the listed categories, in the order the loops visit them.
\<close>

definition spans_of :: "indices \<Rightarrow> pystr list \<Rightarrow> span list" where
  "spans_of indices keys =
     concat (map (\<lambda>key. case map_of indices key of None \<Rightarrow> [] | Some l \<Rightarrow> l) keys)"

definition poi_keys :: "pystr list" where
  "poi_keys = [ascii ''poi'', ascii ''subpoi'', ascii ''community'', ascii ''devzone'',
               ascii ''village_group'']"

definition admin_keys :: "pystr list" where
  "admin_keys = [ascii ''prov'', ascii ''city'', ascii ''district'', ascii ''town'']"

definition road_direction_keys :: "pystr list" where
  "road_direction_keys = [ascii ''road'', ascii ''direction'']"

definition additional_poi_keys :: "pystr list" where
  "additional_poi_keys = [ascii ''poi'', ascii ''subpoi'', ascii ''road'', ascii ''roadno'',
     ascii ''direction'', ascii ''community'', ascii ''devzone'', ascii ''village_group'',
     ascii ''houseno'']"

text \<open>Lines 62--67 and 71--76: a later span replaces the anchor only on a strictly smaller
  (larger) start.\<close>

definition keep_min :: "span \<Rightarrow> span option \<Rightarrow> span option" where
  "keep_min index m =
     (case m of None \<Rightarrow> Some index
      | Some mi \<Rightarrow> if fst index < fst mi then Some index else Some mi)"

definition keep_max :: "span \<Rightarrow> span option \<Rightarrow> span option" where
  "keep_max index m =
     (case m of None \<Rightarrow> Some index
      | Some mi \<Rightarrow> if fst index > fst mi then Some index else Some mi)"

definition poi_min_index :: "indices \<Rightarrow> span option" where
  "poi_min_index indices = fold keep_min (spans_of indices poi_keys) None"

definition admin_max_index :: "indices \<Rightarrow> span option" where
  "admin_max_index indices = fold keep_max (spans_of indices admin_keys) None"

text \<open>
  The search of one level: the pair \<^verbatim>\<open>(min_x_index, max_x_index)\<close>.  Both are assigned
  under the same window test and both start as \<^verbatim>\<open>None\<close>, so they are \<^verbatim>\<open>None\<close> together:
  the pair is one optional value, \<open>None\<close> before the first eligible span.
\<close>

definition keep_both :: "span \<Rightarrow> (span \<times> span) option \<Rightarrow> (span \<times> span) option" where
  "keep_both index w =
     (case w of None \<Rightarrow> Some (index, index)
      | Some (mn, mx) \<Rightarrow>
          Some (if fst index < fst mn then index else mn,
                if fst index > fst mx then index else mx))"

definition scan :: "(nat \<Rightarrow> bool) \<Rightarrow> span list \<Rightarrow> (span \<times> span) option" where
  "scan eligible spans =
     fold (\<lambda>index w. if eligible (fst index) then keep_both index w else w) spans None"

definition max_of :: "(span \<times> span) option \<Rightarrow> span option" where
  "max_of w = map_option snd w"

text \<open>The window test \<^verbatim>\<open>b[1]-1 < start\<close> (also written \<^verbatim>\<open>start > b[1]-1\<close>), on Python's
  unbounded integers.\<close>

definition after :: "span \<Rightarrow> nat \<Rightarrow> bool" where
  "after b start \<longleftrightarrow> int (snd b) - 1 < int start"

text \<open>
  \<^verbatim>\<open>valid_latest_keys = [x for x in latest_keys if x]\<close> and
  \<^verbatim>\<open>max(valid_latest_keys, key=lambda x: x[1])\<close>, the first span of largest end.
\<close>

definition valid_keys :: "span option list \<Rightarrow> span list" where
  "valid_keys latest_keys = concat (map (\<lambda>x. case x of None \<Rightarrow> [] | Some b \<Rightarrow> [b]) latest_keys)"

definition keep_latest :: "span \<Rightarrow> span option \<Rightarrow> span option" where
  "keep_latest b m =
     (case m of None \<Rightarrow> Some b
      | Some mi \<Rightarrow> if snd b > snd mi then Some b else Some mi)"

definition latest_max_index :: "span option list \<Rightarrow> span option" where
  "latest_max_index latest_keys = fold keep_latest (valid_keys latest_keys) None"

text \<open>The anchors and the searches of levels 5, 6, 8, 9, 10 and 11.\<close>

record level_windows =
  poi_anchor :: "span option"
  admin_anchor :: "span option"
  w_road_direction :: "(span \<times> span) option"
  w_roadno :: "(span \<times> span) option"
  w_additional_poi :: "(span \<times> span) option"
  w_cellno :: "(span \<times> span) option"
  w_floorno :: "(span \<times> span) option"
  w_roomno :: "(span \<times> span) option"

text \<open>
  Lines 199--238 and, with the same text, lines 332--369: with the \<^verbatim>\<open>latest_keys\<close> so
  far, level 10 is searched inside \<^verbatim>\<open>if latest_max_index:\<close>, its last span is appended,
  and level 11 is searched inside the second \<^verbatim>\<open>if latest_max_index:\<close>.  The result is the
  pair of the searches of levels 10 and 11.
\<close>

definition search_10_11 ::
  "indices \<Rightarrow> span option list \<Rightarrow> (span \<times> span) option \<times> (span \<times> span) option" where
  "search_10_11 indices latest_keys =
     (case latest_max_index latest_keys of
        None \<Rightarrow> (None, None)
      | Some l \<Rightarrow>
          let fl = scan (\<lambda>start. after l start) (spans_of indices [ascii ''floorno''])
          in (case latest_max_index (latest_keys @ [max_of fl]) of
                None \<Rightarrow> (fl, None)
              | Some l1 \<Rightarrow>
                  (fl, scan (\<lambda>start. after l1 start) (spans_of indices [ascii ''roomno'']))))"

text \<open>Lines 310--369: level 9 and, nested in it, levels 10 and 11.\<close>

definition search_9_to_11 ::
  "indices \<Rightarrow> span option list \<Rightarrow>
   (span \<times> span) option \<times> (span \<times> span) option \<times> (span \<times> span) option" where
  "search_9_to_11 indices latest_keys =
     (case latest_max_index latest_keys of
        None \<Rightarrow> (None, None, None)
      | Some l \<Rightarrow>
          let cn = scan (\<lambda>start. after l start) (spans_of indices [ascii ''cellno''])
          in (cn, search_10_11 indices (latest_keys @ [max_of cn])))"

text \<open>Lines 288--369: level 8 from \<^verbatim>\<open>houseno\<close> and, nested in it, levels 9 to 11.\<close>

definition search_8_to_11 ::
  "indices \<Rightarrow> span option list \<Rightarrow>
   (span \<times> span) option \<times> (span \<times> span) option \<times> (span \<times> span) option \<times>
   (span \<times> span) option" where
  "search_8_to_11 indices latest_keys =
     (case latest_max_index latest_keys of
        None \<Rightarrow> (None, None, None, None)
      | Some l \<Rightarrow>
          let ap = scan (\<lambda>start. after l start) (spans_of indices [ascii ''houseno''])
          in (ap, search_9_to_11 indices (latest_keys @ [max_of ap])))"

text \<open>Lines 92--238: a POI anchor \<open>p\<close> exists.\<close>

definition windows_poi :: "indices \<Rightarrow> span \<Rightarrow> span option \<Rightarrow> level_windows" where
  "windows_poi indices p admin =
     (let rd = (case admin of
                  Some a \<Rightarrow> scan (\<lambda>start. after a start \<and> start < fst p)
                                 (spans_of indices road_direction_keys)
                | None \<Rightarrow> scan (\<lambda>start. start < fst p) (spans_of indices road_direction_keys));
          rn = (case admin of
                  Some a \<Rightarrow>
                    scan (\<lambda>start. case max_of rd of
                                     Some m \<Rightarrow> after m start \<and> start < fst p
                                   | None \<Rightarrow> after a start \<and> start < fst p)
                         (spans_of indices [ascii ''roadno''])
                | None \<Rightarrow>
                    scan (\<lambda>start. case max_of rd of
                                     Some m \<Rightarrow> after m start \<and> start < fst p
                                   | None \<Rightarrow> start < fst p)
                         (spans_of indices [ascii ''roadno'']));
          ap = scan (\<lambda>start. after p start) (spans_of indices additional_poi_keys);
          cn = scan (\<lambda>start. case max_of ap of
                                Some m \<Rightarrow> after m start
                              | None \<Rightarrow> after p start)
                    (spans_of indices [ascii ''cellno'']);
          latest_keys = [admin, max_of rd, max_of rn, Some p, max_of ap, max_of cn]
      in (case search_10_11 indices latest_keys of
            (fl, rm) \<Rightarrow>
              \<lparr>poi_anchor = Some p, admin_anchor = admin, w_road_direction = rd, w_roadno = rn,
               w_additional_poi = ap, w_cellno = cn, w_floorno = fl, w_roomno = rm\<rparr>))"

text \<open>Lines 249--369: no POI anchor, an administrative anchor \<open>a\<close>.\<close>

definition windows_admin :: "indices \<Rightarrow> span \<Rightarrow> level_windows" where
  "windows_admin indices a =
     (let rd = scan (\<lambda>start. after a start) (spans_of indices road_direction_keys);
          rn = scan (\<lambda>start. case max_of rd of
                                Some m \<Rightarrow> after m start
                              | None \<Rightarrow> after a start)
                    (spans_of indices [ascii ''roadno'']);
          latest_keys = [Some a, max_of rd, max_of rn]
      in (case search_8_to_11 indices latest_keys of
            (ap, cn, fl, rm) \<Rightarrow>
              \<lparr>poi_anchor = None, admin_anchor = Some a, w_road_direction = rd, w_roadno = rn,
               w_additional_poi = ap, w_cellno = cn, w_floorno = fl, w_roomno = rm\<rparr>))"

text \<open>Lines 372--403: neither anchor; only levels 5 and 6 are searched.\<close>

definition windows_none :: "indices \<Rightarrow> level_windows" where
  "windows_none indices =
     (let rd = scan (\<lambda>start. True) (spans_of indices road_direction_keys);
          rn = scan (\<lambda>start. case max_of rd of
                                Some m \<Rightarrow> after m start
                              | None \<Rightarrow> True)
                    (spans_of indices [ascii ''roadno''])
      in \<lparr>poi_anchor = None, admin_anchor = None, w_road_direction = rd, w_roadno = rn,
          w_additional_poi = None, w_cellno = None, w_floorno = None, w_roomno = None\<rparr>)"

definition level_windows_of :: "indices \<Rightarrow> level_windows" where
  "level_windows_of indices =
     (case poi_min_index indices of
        Some p \<Rightarrow> windows_poi indices p (admin_max_index indices)
      | None \<Rightarrow>
          (case admin_max_index indices of
             Some a \<Rightarrow> windows_admin indices a
           | None \<Rightarrow> windows_none indices))"

text \<open>\<^verbatim>\<open>addr[min_x_index[0]:max_x_index[1]].strip()\<close>, or the initial \<^verbatim>\<open>''\<close>.\<close>

definition level_text :: "pystr \<Rightarrow> (span \<times> span) option \<Rightarrow> pystr" where
  "level_text addr w =
     (case w of None \<Rightarrow> [] | Some (mn, mx) \<Rightarrow> py_strip (py_slice addr (fst mn) (snd mx)))"

text \<open>Lines 421--427.\<close>

definition all_spans :: "indices \<Rightarrow> span list" where
  "all_spans indices = concat (map snd indices)"

definition used_indices_final :: "indices \<Rightarrow> nat set" where
  "used_indices_final indices =
     fold (\<lambda>index used. used \<union> {fst index..<snd index}) (all_spans indices) {}"

definition remaining_offsets :: "pystr \<Rightarrow> indices \<Rightarrow> nat list" where
  "remaining_offsets addr indices =
     filter (\<lambda>i. i \<notin> used_indices_final indices) [0..<length addr]"

definition remark_of :: "pystr \<Rightarrow> indices \<Rightarrow> pystr" where
  "remark_of addr indices = py_strip (map (\<lambda>i. addr ! i) (remaining_offsets addr indices))"

text \<open>
  The result dictionary.  Levels 1 to 4 are whatever \<^verbatim>\<open>entities.get\<close> returns; the key
  \<^verbatim>\<open>error\<close> is present only in the dictionary built by the handler, where it holds
  \<^verbatim>\<open>str(e)\<close>, represented by the exception itself.
\<close>

record level_record =
  level1 :: pyval
  level2 :: pyval
  level3 :: pyval
  level4 :: pyval
  level5 :: pystr
  level6 :: pystr
  level7 :: pystr
  level8 :: pystr
  level9 :: pystr
  level10 :: pystr
  level11 :: pystr
  remark :: pystr
  original_text :: pyval
  error :: "py_error option"

definition default_prov :: pystr where
  "default_prov = [24191, 19996, 30465]"

definition entities_get :: "(pystr \<times> pyval) list \<Rightarrow> pystr \<Rightarrow> pyval \<Rightarrow> pyval" where
  "entities_get entities key dflt = (case map_of entities key of None \<Rightarrow> dflt | Some v \<Rightarrow> v)"

definition levels_of :: "(pystr \<times> pyval) list \<Rightarrow> pystr \<Rightarrow> indices \<Rightarrow> level_record" where
  "levels_of entities addr indices =
     (let w = level_windows_of indices in
      \<lparr>level1 = entities_get entities (ascii ''prov'') (PStr default_prov),
       level2 = entities_get entities (ascii ''city'') (PStr []),
       level3 = entities_get entities (ascii ''district'') (PStr []),
       level4 = entities_get entities (ascii ''town'') (PStr []),
       level5 = level_text addr (w_road_direction w),
       level6 = level_text addr (w_roadno w),
       level7 = (case poi_anchor w of
                   None \<Rightarrow> []
                 | Some p \<Rightarrow> py_strip (py_slice addr (fst p) (snd p))),
       level8 = level_text addr (w_additional_poi w),
       level9 = level_text addr (w_cellno w),
       level10 = level_text addr (w_floorno w),
       level11 = level_text addr (w_roomno w),
       remark = remark_of addr indices,
       original_text = PStr addr,
       error = None\<rparr>)"

text \<open>
  Lines 421--427 when \<^verbatim>\<open>original_text\<close> is not a string.  The loop over the entities then
  returns only for the empty dictionary (every round ends in an exception, see
  \<open>build_indices_not_str\<close> below), so no span is located, both anchors are \<^verbatim>\<open>None\<close>, levels
  5 to 11 keep their initial \<^verbatim>\<open>''\<close>, and the first use of \<^verbatim>\<open>addr\<close> is \<^verbatim>\<open>len(addr)\<close>: a
  \<^verbatim>\<open>TypeError\<close> for \<^verbatim>\<open>None\<close>, a boolean and a number.  A list is read item by item and
  \<^verbatim>\<open>''.join\<close> is a \<^verbatim>\<open>TypeError\<close> unless every item is a string; a dictionary that is not
  empty has no key \<open>0\<close>, a \<^verbatim>\<open>KeyError\<close>.
\<close>

fun join_strs :: "pyval list \<Rightarrow> py_error + pystr" where
  "join_strs [] = Inr []"
| "join_strs (x # xs) =
     (case x of
        PStr s \<Rightarrow> (case join_strs xs of Inl e \<Rightarrow> Inl e | Inr r \<Rightarrow> Inr (s @ r))
      | _ \<Rightarrow> Inl TypeError)"

definition remark_of_value :: "pyval \<Rightarrow> py_error + pystr" where
  "remark_of_value otext =
     (case otext of
        PStr s \<Rightarrow> Inr (py_strip s)
      | PList l \<Rightarrow> (case join_strs l of Inl e \<Rightarrow> Inl e | Inr s \<Rightarrow> Inr (py_strip s))
      | PDict d \<Rightarrow> if d = [] then Inr [] else Inl KeyError
      | _ \<Rightarrow> Inl TypeError)"

definition levels_without_spans :: "(pystr \<times> pyval) list \<Rightarrow> pyval \<Rightarrow> pystr \<Rightarrow> level_record" where
  "levels_without_spans entities otext rm =
     \<lparr>level1 = entities_get entities (ascii ''prov'') (PStr default_prov),
      level2 = entities_get entities (ascii ''city'') (PStr []),
      level3 = entities_get entities (ascii ''district'') (PStr []),
      level4 = entities_get entities (ascii ''town'') (PStr []),
      level5 = [], level6 = [], level7 = [], level8 = [], level9 = [], level10 = [],
      level11 = [], remark = rm, original_text = otext, error = None\<rparr>"

text \<open>The body of the \<^verbatim>\<open>try\<close> block: the first exception ends it.\<close>

definition classify_body ::
  "nat \<Rightarrow> (pystr \<times> pyval) list \<Rightarrow> pyval \<Rightarrow> py_error + level_record" where
  "classify_body depth entities otext =
     (case build_indices depth otext entities ([], {}) of
        Inl e \<Rightarrow> Inl e
      | Inr (indices, used_indices) \<Rightarrow>
          (case otext of
             PStr addr \<Rightarrow> Inr (levels_of entities addr indices)
           | _ \<Rightarrow>
               (case remark_of_value otext of
                  Inl e \<Rightarrow> Inl e
                | Inr rm \<Rightarrow> Inr (levels_without_spans entities otext rm))))"

text \<open>Lines 434--451: the handler of \<^verbatim>\<open>except Exception as e\<close>.\<close>

definition error_record :: "pyval \<Rightarrow> py_error \<Rightarrow> level_record" where
  "error_record otext e =
     \<lparr>level1 = PStr [], level2 = PStr [], level3 = PStr [], level4 = PStr [],
      level5 = [], level6 = [], level7 = [], level8 = [], level9 = [], level10 = [],
      level11 = [], remark = [], original_text = otext, error = Some e\<rparr>"

definition classify_elements_to_11_levels ::
  "nat \<Rightarrow> (pystr \<times> pyval) list \<Rightarrow> pyval \<Rightarrow> level_record" where
  "classify_elements_to_11_levels depth entities otext =
     (case classify_body depth entities otext of
        Inl e \<Rightarrow> error_record otext e
      | Inr levels \<Rightarrow> levels)"

section \<open>Predicates of the statements\<close>

text \<open>Two located spans overlap when they share an offset; a list of spans is
  non-overlapping when no two of its entries do.\<close>

definition overlap :: "entity_position \<Rightarrow> entity_position \<Rightarrow> bool" where
  "overlap e f \<longleftrightarrow> ep_start e < ep_end f \<and> ep_start f < ep_end e"

fun non_overlapping :: "entity_position list \<Rightarrow> bool" where
  "non_overlapping [] = True"
| "non_overlapping (e # es) = ((\<forall>f\<in>set es. \<not> overlap e f) \<and> non_overlapping es)"

text \<open>What \<open>locate_entity\<close> guarantees of a span: it is not empty, lies inside the
  address, and the address reads the entity text there.\<close>

definition well_located :: "pystr \<Rightarrow> entity_position \<Rightarrow> bool" where
  "well_located s e \<longleftrightarrow>
     ep_text e \<noteq> [] \<and> ep_end e = ep_start e + length (ep_text e) \<and> ep_end e \<le> length s \<and>
     py_slice s (ep_start e) (ep_end e) = ep_text e"

text \<open>Every span starts at or after the end of the one before it, the first at or after
  \<open>cur\<close>.\<close>

fun chained :: "nat \<Rightarrow> entity_position list \<Rightarrow> bool" where
  "chained cur [] = True"
| "chained cur (e # es) = (cur \<le> ep_start e \<and> chained (ep_end e) es)"

text \<open>The token and tag pairs that one located span contributes, and the test for a pair
  carrying a tag other than \<^verbatim>\<open>O\<close>.\<close>

definition entity_block :: "entity_position \<Rightarrow> (pystr \<times> pystr) list" where
  "entity_block e = zip (chars (ep_text e)) (entity_tags (ep_type e) (ep_text e))"

definition tagged :: "pystr \<times> pystr \<Rightarrow> bool" where
  "tagged tt \<longleftrightarrow> snd tt \<noteq> tag_O"

text \<open>A category map whose values are all strings, as the data model of the
  specification has it, seen as a dictionary of Python values.\<close>

definition strs :: "(pystr \<times> pystr) list \<Rightarrow> (pystr \<times> pyval) list" where
  "strs ents = map (\<lambda>(k, v). (k, PStr v)) ents"

text \<open>The address of the specification's first example, of 21 characters, with a category
  map that has no province: city (offsets 2--4), district (5--7), town (8--10), community
  (11--13), POI (14--15) and room number (16--20).\<close>

definition example_address :: pystr where
  "example_address = [27993, 27743, 26477, 24030, 24066, 27743, 24178, 21306, 20061, 22561,
     38215, 19977, 26449, 26449, 19968, 21306, 49, 49, 57, 48, 25151]"

definition example_entities :: "(pystr \<times> pystr) list" where
  "example_entities =
     [(ascii ''city'', [26477, 24030, 24066]), (ascii ''district'', [27743, 24178, 21306]),
      (ascii ''town'', [20061, 22561, 38215]), (ascii ''community'', [19977, 26449, 26449]),
      (ascii ''poi'', [19968, 21306]), (ascii ''roomno'', [49, 49, 57, 48, 25151])]"

text \<open>The spans that the classifier locates for the example.\<close>

definition example_indices :: indices where
  "example_indices =
     [(ascii ''city'', [(2, 5)]), (ascii ''district'', [(5, 8)]), (ascii ''town'', [(8, 11)]),
      (ascii ''community'', [(11, 14)]), (ascii ''poi'', [(14, 16)]),
      (ascii ''roomno'', [(16, 21)])]"

text \<open>An offset lies in a span; the spans of a list share no offset; and what the search
  loop maintains of the located spans: they are pairwise disjoint, inside the address,
  recorded in \<^verbatim>\<open>used_indices\<close>, and an empty span is the span \<open>(0, 0)\<close> of an empty
  value.\<close>

definition covers :: "nat \<Rightarrow> span \<Rightarrow> bool" where
  "covers i x \<longleftrightarrow> fst x \<le> i \<and> i < snd x"

fun spans_disjoint :: "span list \<Rightarrow> bool" where
  "spans_disjoint [] = True"
| "spans_disjoint (x # xs) =
     ((\<forall>y\<in>set xs. {fst x..<snd x} \<inter> {fst y..<snd y} = {}) \<and> spans_disjoint xs)"

definition located :: "pystr \<Rightarrow> span list \<Rightarrow> nat set \<Rightarrow> bool" where
  "located addr xs used \<longleftrightarrow>
     spans_disjoint xs \<and>
     (\<forall>x\<in>set xs. {fst x..<snd x} \<subseteq> used \<and> snd x \<le> length addr \<and>
                  (fst x < snd x \<or> x = (0, 0)))"

text \<open>The offsets from which the levels take their text: the located spans of the four
  administrative categories for levels 1 to 4, the POI anchor for level 7, and the slice
  from the first to the last eligible span for levels 5, 6, 8, 9, 10 and 11.\<close>

definition window_offsets :: "(span \<times> span) option \<Rightarrow> nat set" where
  "window_offsets w = (case w of None \<Rightarrow> {} | Some (mn, mx) \<Rightarrow> {fst mn..<snd mx})"

definition level_offsets :: "indices \<Rightarrow> nat set" where
  "level_offsets indices =
     (let w = level_windows_of indices in
      (\<Union>x\<in>set (spans_of indices admin_keys). {fst x..<snd x}) \<union>
      window_offsets (w_road_direction w) \<union> window_offsets (w_roadno w) \<union>
      (case poi_anchor w of None \<Rightarrow> {} | Some p \<Rightarrow> {fst p..<snd p}) \<union>
      window_offsets (w_additional_poi w) \<union> window_offsets (w_cellno w) \<union>
      window_offsets (w_floorno w) \<union> window_offsets (w_roomno w))"

text \<open>
  The searches by level number, the categories searched for levels 8 to 11, and two
  readings of the boundary of a level search.  \<open>assigned_before\<close> is the reading of the
  specification: both anchors and the last span of every level searched before.
  \<open>latest_keys_at\<close> is the list the code compares against: \<^verbatim>\<open>latest_keys\<close> where the
  code builds it, and for levels 8 and 9 after a POI anchor the POI anchor, or the last span
  of level 8 when there is one.  \<open>behind keys\<close> holds of a start at or after every end in
  \<open>keys\<close>.
\<close>

definition level_window :: "level_windows \<Rightarrow> nat \<Rightarrow> (span \<times> span) option" where
  "level_window w k =
     (if k = 5 then w_road_direction w else if k = 6 then w_roadno w
      else if k = 8 then w_additional_poi w else if k = 9 then w_cellno w
      else if k = 10 then w_floorno w else if k = 11 then w_roomno w else None)"

definition level_categories :: "level_windows \<Rightarrow> nat \<Rightarrow> pystr list" where
  "level_categories w k =
     (if k = 8 then (case poi_anchor w of None \<Rightarrow> [ascii ''houseno'']
                     | Some p \<Rightarrow> additional_poi_keys)
      else if k = 9 then [ascii ''cellno'']
      else if k = 10 then [ascii ''floorno'']
      else if k = 11 then [ascii ''roomno''] else [])"

definition assigned_before :: "level_windows \<Rightarrow> nat \<Rightarrow> span list" where
  "assigned_before w k =
     valid_keys ([admin_anchor w, poi_anchor w] @
                 map (\<lambda>j. max_of (level_window w j)) (filter (\<lambda>j. j < k) [5, 6, 8, 9, 10, 11]))"

definition respects_latest_boundary :: "level_windows \<Rightarrow> bool" where
  "respects_latest_boundary w \<longleftrightarrow>
     list_all (\<lambda>k. case level_window w k of
                     None \<Rightarrow> True
                   | Some (mn, mx) \<Rightarrow> list_all (\<lambda>b. snd b \<le> fst mn) (assigned_before w k))
              [8, 9, 10, 11]"

definition latest_keys_at :: "level_windows \<Rightarrow> nat \<Rightarrow> span option list" where
  "latest_keys_at w k =
     (case poi_anchor w of
        None \<Rightarrow>
          [admin_anchor w, max_of (w_road_direction w), max_of (w_roadno w)] @
          map (\<lambda>j. max_of (level_window w j)) (filter (\<lambda>j. j < k) [8, 9, 10])
      | Some p \<Rightarrow>
          if k = 8 then [Some p]
          else if k = 9 then
            [case max_of (w_additional_poi w) of None \<Rightarrow> Some p | Some m \<Rightarrow> Some m]
          else
            [admin_anchor w, max_of (w_road_direction w), max_of (w_roadno w), Some p,
             max_of (w_additional_poi w), max_of (w_cellno w)] @
            map (\<lambda>j. max_of (level_window w j)) (filter (\<lambda>j. j < k) [10]))"

definition behind :: "span option list \<Rightarrow> nat \<Rightarrow> bool" where
  "behind keys start \<longleftrightarrow> (\<forall>b\<in>set (valid_keys keys). snd b \<le> start)"

text \<open>The window test of level 5 when a POI anchor \<open>p\<close> exists: the span starts before the
  POI anchor and, when there is an administrative anchor, at or after its end.\<close>

definition level5_eligible :: "span \<Rightarrow> span option \<Rightarrow> nat \<Rightarrow> bool" where
  "level5_eligible p admin start \<longleftrightarrow>
     start < fst p \<and> (case admin of None \<Rightarrow> True | Some a \<Rightarrow> snd a \<le> start)"

text \<open>Two further inputs: a POI followed by a unit number and a city, and a city, a road,
  a POI and a second road.\<close>

definition boundary_indices :: indices where
  "boundary_indices =
     [(ascii ''poi'', [(0, 3)]), (ascii ''cellno'', [(3, 5)]), (ascii ''city'', [(5, 8)])]"

definition poi_road_address :: pystr where
  "poi_road_address = ascii ''gzszslabcxyl''"

definition poi_road_entities :: "(pystr \<times> pystr) list" where
  "poi_road_entities =
     [(ascii ''city'', ascii ''gzs''), (ascii ''road'', ascii ''zsl,xyl''),
      (ascii ''poi'', ascii ''abc'')]"

definition poi_road_indices :: indices where
  "poi_road_indices =
     [(ascii ''city'', [(0, 3)]), (ascii ''road'', [(3, 6), (9, 12)]), (ascii ''poi'', [(6, 9)])]"


definition decoded_values :: "entities_dict \<Rightarrow> pystr \<Rightarrow> pystr list" where
  "decoded_values entities c = (case map_of entities c of None \<Rightarrow> [] | Some vs \<Rightarrow> vs)"







section \<open>Facts about the string primitives\<close>

lemma find_at_Some:
  "find_at xs sub i = Some p \<Longrightarrow>
     i \<le> p \<and> p - i + length sub \<le> length xs \<and> take (length sub) (drop (p - i) xs) = sub"
proof (induction xs arbitrary: i)
  case Nil
  then show ?case by (simp split: if_splits)
next
  case (Cons c cs)
  show ?case
  proof (cases "prefix sub (c # cs)")
    case True
    then obtain zs where zs: "c # cs = sub @ zs" by (auto elim: prefixE)
    from True Cons.prems have "p = i" by simp
    moreover from zs have "length sub \<le> length (c # cs)"
      by (metis le_add1 length_append)
    moreover from zs have "take (length sub) (c # cs) = sub"
      by (metis append_eq_conv_conj)
    ultimately show ?thesis by simp
  next
    case False
    with Cons.prems have rec: "find_at cs sub (Suc i) = Some p" by simp
    from Cons.IH [OF rec] have ih1: "Suc i \<le> p"
      and ih2: "p - Suc i + length sub \<le> length cs"
      and ih3: "take (length sub) (drop (p - Suc i) cs) = sub" by blast+
    from ih1 have eq: "p - i = Suc (p - Suc i)" by arith
    from ih1 have "i \<le> p" by arith
    moreover from ih2 eq have "p - i + length sub \<le> length (c # cs)" by simp
    moreover from ih3 eq have "take (length sub) (drop (p - i) (c # cs)) = sub" by simp
    ultimately show ?thesis by blast
  qed
qed

lemma py_find_Some:
  assumes "py_find s sub start = Some p"
  shows "start \<le> p" and "p + length sub \<le> length s"
    and "py_slice s p (p + length sub) = sub"
proof -
  from assms have le: "start \<le> length s" and f: "find_at (drop start s) sub start = Some p"
    by (auto simp: py_find_def split: if_splits)
  from find_at_Some [OF f] have a: "start \<le> p"
    and b: "p - start + length sub \<le> length (drop start s)"
    and c: "take (length sub) (drop (p - start) (drop start s)) = sub" by blast+
  show "start \<le> p" by (rule a)
  from a b le show "p + length sub \<le> length s" by simp
  from a have "p - start + start = p" by arith
  with c have "take (length sub) (drop p s) = sub" by simp
  then show "py_slice s p (p + length sub) = sub"
    by (simp add: py_slice_def drop_take)
qed

section \<open>The encoder on non-overlapping spans\<close>

lemma concat_chars [simp]: "concat (chars s) = s"
  by (induction s) (simp_all add: chars_def)

lemma length_chars [simp]: "length (chars s) = length s"
  by (simp add: chars_def)

lemma length_entity_tags [simp]: "length (entity_tags ty s) = length s"
  by (simp add: entity_tags_def)

lemma take_append_py_slice: "a \<le> b \<Longrightarrow> take a s @ py_slice s a b = take b s"
proof -
  assume "a \<le> b"
  then have "take a s = take a (take b s)" by (simp add: min_def)
  then show ?thesis unfolding py_slice_def by (metis append_take_drop_id)
qed

lemma length_py_slice: "b \<le> length s \<Longrightarrow> length (py_slice s a b) = b - a"
  by (simp add: py_slice_def)

lemma locate_entity_well: "e \<in> set (locate_entity s ty v) \<Longrightarrow> well_located s e"
proof -
  assume "e \<in> set (locate_entity s ty v)"
  then obtain p where v: "v \<noteq> []" and f: "py_find s v 0 = Some p"
    and e: "e = \<lparr>ep_start = p, ep_end = p + length v, ep_text = v, ep_type = ty\<rparr>"
    by (cases "py_find s v 0") (auto simp: locate_entity_def split: if_splits)
  from py_find_Some(2,3) [OF f] v e show ?thesis by (simp add: well_located_def)
qed

lemma entity_positions_well: "e \<in> set (entity_positions comps s) \<Longrightarrow> well_located s e"
  by (auto simp: entity_positions_def split: if_splits dest: locate_entity_well)

lemma non_overlapping_insort:
  "non_overlapping (insort_key f x xs) = non_overlapping (x # xs)"
  by (induction xs) (auto simp: overlap_def set_insort_key)

lemma non_overlapping_sort_key: "non_overlapping (sort_key f xs) = non_overlapping xs"
  by (induction xs) (simp_all add: non_overlapping_insort)

lemma sorted_chained:
  "sorted (map ep_start es) \<Longrightarrow> non_overlapping es \<Longrightarrow> \<forall>e\<in>set es. well_located s e \<Longrightarrow>
   \<forall>e\<in>set es. cur \<le> ep_start e \<Longrightarrow> chained cur es"
proof (induction es arbitrary: cur)
  case Nil
  show ?case by simp
next
  case (Cons e es)
  have "\<forall>f\<in>set es. ep_end e \<le> ep_start f"
  proof
    fix f assume f: "f \<in> set es"
    with Cons.prems(1) have "ep_start e \<le> ep_start f" by simp
    moreover from f Cons.prems(3) have "ep_start f < ep_end f"
      by (simp add: well_located_def)
    moreover from f Cons.prems(2) have "\<not> overlap e f" by simp
    ultimately show "ep_end e \<le> ep_start f" by (simp add: overlap_def)
  qed
  moreover from Cons.prems have "sorted (map ep_start es)" "non_overlapping es"
    "\<forall>e\<in>set es. well_located s e" by simp_all
  ultimately have "chained (ep_end e) es" by (rule Cons.IH [rotated 3])
  with Cons.prems(4) show ?case by simp
qed

lemma fold_emit_lengths:
  "fold (emit_entity s) es (toks, tags, cur) = (toks', tags', cur') \<Longrightarrow>
   length tags = length toks \<Longrightarrow> length tags' = length toks'"
proof (induction es arbitrary: toks tags cur)
  case Nil
  then show ?case by simp
next
  case (Cons e es)
  obtain t1 g1 c1 where st: "emit_entity s e (toks, tags, cur) = (t1, g1, c1)"
    by (cases "emit_entity s e (toks, tags, cur)")
  with Cons.prems(2) have "length g1 = length t1"
    by (auto simp: emit_entity_def Let_def)
  moreover from Cons.prems(1) st have "fold (emit_entity s) es (t1, g1, c1) = (toks', tags', cur')"
    by simp
  ultimately show ?case by (rule Cons.IH [rotated])
qed

lemma fold_emit_chained:
  "chained cur es \<Longrightarrow> \<forall>e\<in>set es. well_located s e \<Longrightarrow> cur \<le> length s \<Longrightarrow>
   fold (emit_entity s) es (toks, tags, cur) = (toks', tags', cur') \<Longrightarrow>
   concat toks = take cur s \<Longrightarrow> length toks = cur \<Longrightarrow>
   concat toks' = take cur' s \<and> length toks' = cur' \<and> cur' \<le> length s"
proof (induction es arbitrary: toks tags cur)
  case Nil
  then show ?case by simp
next
  case (Cons e es)
  from Cons.prems(1) have le: "cur \<le> ep_start e" and ch: "chained (ep_end e) es" by simp_all
  from Cons.prems(2) have w: "well_located s e" and ws: "\<forall>e\<in>set es. well_located s e"
    by simp_all
  define gap where "gap = py_slice s cur (ep_start e)"
  from w have len: "ep_end e = ep_start e + length (ep_text e)"
    and b2: "ep_end e \<le> length s"
    and sl: "py_slice s (ep_start e) (ep_end e) = ep_text e"
    unfolding well_located_def by blast+
  from len have b1: "ep_start e \<le> ep_end e" by simp
  note bounds = b1 b2
  have gap_if: "(if cur < ep_start e then py_slice s cur (ep_start e) else []) = gap"
    using le by (auto simp: gap_def py_slice_def)
  have st: "emit_entity s e (toks, tags, cur) =
      (toks @ chars gap @ chars (ep_text e),
       tags @ replicate (length gap) tag_O @ entity_tags (ep_type e) (ep_text e), ep_end e)"
    by (simp add: emit_entity_def gap_if)
  have c1: "concat (toks @ chars gap @ chars (ep_text e)) = take (ep_end e) s"
  proof -
    have "take cur s @ gap = take (ep_start e) s"
      unfolding gap_def using le by (rule take_append_py_slice)
    moreover have "take (ep_start e) s @ ep_text e = take (ep_end e) s"
      using take_append_py_slice [OF bounds(1), of s] sl by simp
    ultimately have "(take cur s @ gap) @ ep_text e = take (ep_end e) s" by simp
    then show ?thesis using Cons.prems(5) by simp
  qed
  have "length gap = ep_start e - cur"
    unfolding gap_def using bounds by (simp add: length_py_slice)
  with le len Cons.prems(6) have c2: "length (toks @ chars gap @ chars (ep_text e)) = ep_end e"
    by simp
  from Cons.prems(4) st have
    "fold (emit_entity s) es (toks @ chars gap @ chars (ep_text e),
       tags @ replicate (length gap) tag_O @ entity_tags (ep_type e) (ep_text e), ep_end e)
     = (toks', tags', cur')" by simp
  from Cons.IH [OF ch ws bounds(2) this c1 c2] show ?case .
qed

text \<open>
  C1 (amended).  For every address and component dictionary the encoder returns as many
  tags as tokens.  When the located spans are pairwise non-overlapping, there is one token
  for every character of the address and the tokens concatenate to the address.
\<close>

theorem encoder_length_concat:
  "length (ner_tags (convert_address_to_token comps s)) =
     length (tokens (convert_address_to_token comps s)) \<and>
   (non_overlapping (entity_positions comps s) \<longrightarrow>
      length (tokens (convert_address_to_token comps s)) = length s \<and>
      concat (tokens (convert_address_to_token comps s)) = s)"
proof -
  obtain toks tags cur where
    f: "fold (emit_entity s) (sorted_positions comps s) ([], [], 0) = (toks, tags, cur)"
    by (cases "fold (emit_entity s) (sorted_positions comps s) ([], [], 0)")
  define rest where "rest = (if cur < length s then drop cur s else [])"
  have r: "convert_address_to_token comps s =
      \<lparr>tokens = toks @ chars rest, ner_tags = tags @ replicate (length rest) tag_O, td_text = s\<rparr>"
    by (simp add: convert_address_to_token_def f rest_def Let_def)
  from fold_emit_lengths [OF f] have "length tags = length toks" by simp
  then have first: "length (ner_tags (convert_address_to_token comps s)) =
     length (tokens (convert_address_to_token comps s))" by (simp add: r)
  have second: "length (tokens (convert_address_to_token comps s)) = length s \<and>
      concat (tokens (convert_address_to_token comps s)) = s"
    if no: "non_overlapping (entity_positions comps s)"
  proof -
    have ws: "\<forall>e\<in>set (sorted_positions comps s). well_located s e"
      by (simp add: sorted_positions_def entity_positions_well)
    have "non_overlapping (sorted_positions comps s)"
      using no by (simp add: sorted_positions_def non_overlapping_sort_key)
    then have "chained 0 (sorted_positions comps s)"
      using ws by (intro sorted_chained [where s = s]) (simp_all add: sorted_positions_def)
    from fold_emit_chained [OF this ws _ f]
    have inv: "concat toks = take cur s" "length toks = cur" "cur \<le> length s" by simp_all
    have "rest = drop cur s" using inv(3) by (simp add: rest_def)
    with inv show ?thesis by (simp add: r)
  qed
  from first second show ?thesis by blast
qed


lemmas enc_eval = convert_address_to_token_def sorted_positions_def entity_positions_def
  candidate_entities_def locate_entity_def py_find_def emit_entity_def entity_tags_def
  bioes_tag_def chars_def tag_O_def ascii_def comma_def py_slice_def Let_def

theorem encoder_length_concat_witness:
  "non_overlapping (entity_positions
      [(ascii ''floorno'', [20116, 27004]), (ascii ''roomno'', ascii ''501'')]
      ([20116, 27004] @ ascii ''501'')) \<and>
   length (tokens (convert_address_to_token
      [(ascii ''floorno'', [20116, 27004]), (ascii ''roomno'', ascii ''501'')]
      ([20116, 27004] @ ascii ''501''))) = 5 \<and>
   concat (tokens (convert_address_to_token
      [(ascii ''floorno'', [20116, 27004]), (ascii ''roomno'', ascii ''501'')]
      ([20116, 27004] @ ascii ''501''))) = [20116, 27004, 53, 48, 49]"
proof -
  have h: "non_overlapping (entity_positions
      [(ascii ''floorno'', [20116, 27004]), (ascii ''roomno'', ascii ''501'')]
      ([20116, 27004] @ ascii ''501''))"
    by (simp add: enc_eval overlap_def)
  have s: "[20116, 27004] @ ascii ''501'' = [20116, 27004, 53, 48, 49]"
    by (simp add: ascii_def)
  from encoder_length_concat [of "[(ascii ''floorno'', [20116, 27004]), (ascii ''roomno'', ascii ''501'')]"
      "[20116, 27004] @ ascii ''501''"] h s
  show ?thesis by simp
qed

text \<open>
  C1 as stated fails when two located spans overlap: for the address \<^verbatim>\<open>abc\<close> with
  \<^verbatim>\<open>{x: 'abc', y: 'b'}\<close> the encoder returns five tokens, \<^verbatim>\<open>a b c b c\<close>.
\<close>

theorem encoder_length_counterexample:
  "\<not> (length (tokens (convert_address_to_token
            [(ascii ''x'', ascii ''abc''), (ascii ''y'', ascii ''b'')] (ascii ''abc'')))
        = length (ascii ''abc'') \<and>
      concat (tokens (convert_address_to_token
            [(ascii ''x'', ascii ''abc''), (ascii ''y'', ascii ''b'')] (ascii ''abc'')))
        = ascii ''abc'')"
  by (simp add: enc_eval)

section \<open>The encoder on overlapping spans\<close>

text \<open>
  The other direction of C1: when two located spans overlap, the encoder returns more tokens
  than the address has characters.  The excess of the tokens over the position consumed never
  shrinks, and it grows in every round whose span starts before that position.
\<close>

lemma chained_non_overlapping:
  "chained cur es \<Longrightarrow> \<forall>e\<in>set es. ep_start e \<le> ep_end e \<Longrightarrow>
   non_overlapping es \<and> (\<forall>e\<in>set es. cur \<le> ep_start e)"
proof (induction es arbitrary: cur)
  case Nil
  show ?case by simp
next
  case (Cons e es)
  from Cons.prems have le: "cur \<le> ep_start e" and ch: "chained (ep_end e) es"
    and se: "ep_start e \<le> ep_end e" and ws: "\<forall>e\<in>set es. ep_start e \<le> ep_end e"
    by simp_all
  from Cons.IH [OF ch ws] have no: "non_overlapping es"
    and after: "\<forall>f\<in>set es. ep_end e \<le> ep_start f" by blast+
  from after have "\<forall>f\<in>set es. \<not> overlap e f" by (auto simp: overlap_def)
  moreover from after le se have "\<forall>f\<in>set es. cur \<le> ep_start f" by fastforce
  ultimately show ?case using no le by simp
qed

lemma fold_emit_excess:
  "fold (emit_entity s) es (toks, tags, cur) = (toks', tags', cur') \<Longrightarrow>
   \<forall>e\<in>set es. well_located s e \<Longrightarrow> cur \<le> length s \<Longrightarrow> cur \<le> length toks \<Longrightarrow>
   cur' \<le> length s \<and> cur' \<le> length toks' \<and> length toks - cur \<le> length toks' - cur' \<and>
   (\<not> chained cur es \<longrightarrow> length toks - cur < length toks' - cur')"
proof (induction es arbitrary: toks tags cur)
  case Nil
  then show ?case by simp
next
  case (Cons e es)
  from Cons.prems(2) have w: "well_located s e" and ws: "\<forall>e\<in>set es. well_located s e"
    by simp_all
  from w have len: "ep_end e = ep_start e + length (ep_text e)"
    and b2: "ep_end e \<le> length s" unfolding well_located_def by blast+
  define gap where "gap = (if cur < ep_start e then py_slice s cur (ep_start e) else [])"
  define t1 where "t1 = toks @ chars gap @ chars (ep_text e)"
  define g1 where
    "g1 = tags @ replicate (length gap) tag_O @ entity_tags (ep_type e) (ep_text e)"
  have st: "emit_entity s e (toks, tags, cur) = (t1, g1, ep_end e)"
    by (simp add: emit_entity_def gap_def t1_def g1_def Let_def)
  from len b2 have "ep_start e \<le> length s" by simp
  then have lg: "length gap = (if cur < ep_start e then ep_start e - cur else 0)"
    by (simp add: gap_def length_py_slice)
  have l1: "length t1 = length toks + length gap + length (ep_text e)"
    by (simp add: t1_def)
  from l1 lg len Cons.prems(4) have c1: "ep_end e \<le> length t1" by (simp split: if_splits)
  from l1 lg len Cons.prems(4)
  have keep: "length toks - cur \<le> length t1 - ep_end e" by (simp split: if_splits)
  from l1 lg len Cons.prems(4)
  have grow: "length toks - cur < length t1 - ep_end e" if "ep_start e < cur"
    using that by (simp split: if_splits)
  from Cons.prems(1) st
  have "fold (emit_entity s) es (t1, g1, ep_end e) = (toks', tags', cur')" by simp
  from Cons.IH [OF this ws b2 c1]
  have r1: "cur' \<le> length s" and r2: "cur' \<le> length toks'"
    and r3: "length t1 - ep_end e \<le> length toks' - cur'"
    and r4: "\<not> chained (ep_end e) es \<longrightarrow> length t1 - ep_end e < length toks' - cur'"
    by blast+
  have "length toks - cur < length toks' - cur'" if "\<not> chained cur (e # es)"
  proof (cases "cur \<le> ep_start e")
    case True
    with that have "\<not> chained (ep_end e) es" by simp
    with r4 keep show ?thesis by simp
  next
    case False
    then have "ep_start e < cur" by simp
    from grow [OF this] r3 show ?thesis by simp
  qed
  with r1 r2 r3 keep show ?case by auto
qed

lemma encoder_longer_on_overlap:
  assumes "\<not> non_overlapping (entity_positions comps s)"
  shows "length s < length (tokens (convert_address_to_token comps s))"
proof -
  obtain toks tags cur where
    f: "fold (emit_entity s) (sorted_positions comps s) ([], [], 0) = (toks, tags, cur)"
    by (cases "fold (emit_entity s) (sorted_positions comps s) ([], [], 0)")
  define rest where "rest = (if cur < length s then drop cur s else [])"
  have r: "convert_address_to_token comps s =
      \<lparr>tokens = toks @ chars rest, ner_tags = tags @ replicate (length rest) tag_O, td_text = s\<rparr>"
    by (simp add: convert_address_to_token_def f rest_def Let_def)
  have ws: "\<forall>e\<in>set (sorted_positions comps s). well_located s e"
    by (simp add: sorted_positions_def entity_positions_well)
  then have se: "\<forall>e\<in>set (sorted_positions comps s). ep_start e \<le> ep_end e"
    by (simp add: well_located_def)
  from assms have "\<not> non_overlapping (sorted_positions comps s)"
    by (simp add: sorted_positions_def non_overlapping_sort_key)
  with chained_non_overlapping [OF _ se, of 0]
  have "\<not> chained 0 (sorted_positions comps s)" by blast
  with fold_emit_excess [OF f ws] have c: "cur \<le> length s" and t: "cur < length toks"
    by simp_all
  from c have "length rest = length s - cur" by (simp add: rest_def)
  then have "length (tokens (convert_address_to_token comps s))
      = length toks + (length s - cur)" by (simp add: r)
  with c t show ?thesis by arith
qed

lemma bioes_tag_not_O: "bioes_tag ty n i \<noteq> tag_O" "tag_O \<noteq> bioes_tag ty n i"
  by (simp_all add: bioes_tag_def tag_O_def ascii_def)

lemma filter_entity_block: "filter tagged (entity_block e) = entity_block e"
  by (auto simp: entity_block_def entity_tags_def tagged_def filter_id_conv bioes_tag_not_O
      dest!: set_zip_rightD)

lemma filter_gap: "filter tagged (zip xs (replicate n tag_O)) = []"
  by (auto simp: filter_empty_conv tagged_def dest!: set_zip_rightD)

lemma emit_entity_tagged:
  assumes "length tags = length toks"
    and "emit_entity s e (toks, tags, cur) = (toks', tags', cur')"
  shows "filter tagged (zip toks' tags') = filter tagged (zip toks tags) @ entity_block e"
    and "length tags' = length toks'" and "cur' = ep_end e"
proof -
  define gap where "gap = (if cur < ep_start e then py_slice s cur (ep_start e) else [])"
  from assms(2) have t: "toks' = toks @ chars gap @ chars (ep_text e)"
    and g: "tags' = tags @ replicate (length gap) tag_O @ entity_tags (ep_type e) (ep_text e)"
    and c: "cur' = ep_end e"
    by (simp_all add: emit_entity_def gap_def Let_def)
  show "cur' = ep_end e" by (rule c)
  from assms(1) show "length tags' = length toks'" by (simp add: t g)
  have "zip toks' tags' = zip toks tags @ zip (chars gap) (replicate (length gap) tag_O)
      @ entity_block e"
    using assms(1) by (simp add: t g entity_block_def)
  then show "filter tagged (zip toks' tags') = filter tagged (zip toks tags) @ entity_block e"
    by (simp add: filter_gap filter_entity_block)
qed

lemma fold_emit_tagged:
  "length tags = length toks \<Longrightarrow>
   fold (emit_entity s) es (toks, tags, cur) = (toks', tags', cur') \<Longrightarrow>
   filter tagged (zip toks' tags') = filter tagged (zip toks tags) @ concat (map entity_block es)
   \<and> length tags' = length toks'"
proof (induction es arbitrary: toks tags cur)
  case Nil
  then show ?case by simp
next
  case (Cons e es)
  obtain t1 g1 c1 where st: "emit_entity s e (toks, tags, cur) = (t1, g1, c1)"
    by (cases "emit_entity s e (toks, tags, cur)")
  note step = emit_entity_tagged [OF Cons.prems(1) st]
  from Cons.prems(2) st have "fold (emit_entity s) es (t1, g1, c1) = (toks', tags', cur')"
    by simp
  from Cons.IH [OF step(2) this] step(1) show ?case by simp
qed

text \<open>
  C5 (amended).  The encoder never clips or drops a located span: for every address and
  component dictionary, the token and tag pairs with a tag other than \<^verbatim>\<open>O\<close> are, in
  order, the full B/I/E/S blocks of all located spans in sorted order.  A span that starts
  before the position already consumed is therefore emitted whole again.
\<close>

theorem encoder_emits_every_span_whole:
  "filter tagged (zip (tokens (convert_address_to_token comps s))
                      (ner_tags (convert_address_to_token comps s)))
   = concat (map entity_block (sorted_positions comps s))"
proof -
  obtain toks tags cur where
    f: "fold (emit_entity s) (sorted_positions comps s) ([], [], 0) = (toks, tags, cur)"
    by (cases "fold (emit_entity s) (sorted_positions comps s) ([], [], 0)")
  define rest where "rest = (if cur < length s then drop cur s else [])"
  have r: "convert_address_to_token comps s =
      \<lparr>tokens = toks @ chars rest, ner_tags = tags @ replicate (length rest) tag_O, td_text = s\<rparr>"
    by (simp add: convert_address_to_token_def f rest_def Let_def)
  from fold_emit_tagged [OF _ f]
  have a: "filter tagged (zip toks tags) = concat (map entity_block (sorted_positions comps s))"
    and b: "length tags = length toks" by simp_all
  from b have "zip (toks @ chars rest) (tags @ replicate (length rest) tag_O)
      = zip toks tags @ zip (chars rest) (replicate (length rest) tag_O)" by simp
  then show ?thesis by (simp add: r a filter_gap)
qed

text \<open>
  C5 as stated fails: in the address \<^verbatim>\<open>abc\<close> with \<^verbatim>\<open>{x: 'abc', y: 'b'}\<close> the span of
  \<^verbatim>\<open>y\<close> lies inside the consumed span of \<^verbatim>\<open>x\<close>, yet it is emitted (\<^verbatim>\<open>S-y\<close>), and
  the character \<^verbatim>\<open>c\<close> is emitted a second time.
\<close>

theorem encoder_clipping_counterexample:
  "sorted_positions [(ascii ''x'', ascii ''abc''), (ascii ''y'', ascii ''b'')] (ascii ''abc'')
     = [\<lparr>ep_start = 0, ep_end = 3, ep_text = ascii ''abc'', ep_type = ascii ''x''\<rparr>,
        \<lparr>ep_start = 1, ep_end = 2, ep_text = ascii ''b'', ep_type = ascii ''y''\<rparr>] \<and>
   ner_tags (convert_address_to_token
       [(ascii ''x'', ascii ''abc''), (ascii ''y'', ascii ''b'')] (ascii ''abc''))
     = [ascii ''B-x'', ascii ''I-x'', ascii ''E-x'', ascii ''S-y'', ascii ''O''] \<and>
   tokens (convert_address_to_token
       [(ascii ''x'', ascii ''abc''), (ascii ''y'', ascii ''b'')] (ascii ''abc''))
     = chars (ascii ''abcbc'')"
  by (simp add: enc_eval)

section \<open>The decoder with an open accumulator\<close>

lemma prefix_tags_distinct:
  "prefix (ascii ''I-'') tag \<Longrightarrow> \<not> prefix (ascii ''B-'') tag \<and> \<not> prefix (ascii ''S-'') tag
     \<and> \<not> prefix (ascii ''E-'') tag"
  "prefix (ascii ''E-'') tag \<Longrightarrow> \<not> prefix (ascii ''B-'') tag \<and> \<not> prefix (ascii ''S-'') tag
     \<and> \<not> prefix (ascii ''I-'') tag"
  by (auto simp: ascii_def prefix_def)

lemma entity_type_of_B [simp]: "entity_type_of (ascii ''B-'' @ cat) = cat"
  by (simp add: entity_type_of_def after_hyphen_def ascii_def hyphen_def)

lemma truthy_B [simp]: "truthy (Some (ascii ''B-'' @ cat))"
  by (simp add: truthy_def ascii_def)

lemma save_entity_None [simp]: "save_entity None acc ents = ents"
  by (simp add: save_entity_def)

lemma save_entity_B:
  "acc \<noteq> [] \<Longrightarrow> save_entity (Some (ascii ''B-'' @ cat)) acc ents
     = entities_append cat (concat acc) ents"
  by (simp add: save_entity_def) (simp add: ascii_def)

text \<open>
  C6 (amended).  While an accumulator is open for category \<open>cat\<close> (opened by
  \<^verbatim>\<open>B-cat\<close>): an \<^verbatim>\<open>I-\<close> tag of any category appends its character and leaves the
  accumulator open; an \<^verbatim>\<open>E-\<close> tag of any category appends its character and stores the
  accumulator under \<open>cat\<close>; every other tag (\<^verbatim>\<open>O\<close>, a fresh \<^verbatim>\<open>B-\<close> or \<^verbatim>\<open>S-\<close>, anything
  else) stores the accumulator as it is under \<open>cat\<close> and is then read by the rules of the
  idle state.
\<close>

theorem decoder_open_step:
  "(prefix (ascii ''I-'') tag \<longrightarrow>
      extract_step (tok, tag) (ents, Some (ascii ''B-'' @ cat), acc)
        = (ents, Some (ascii ''B-'' @ cat), acc @ [tok])) \<and>
   (prefix (ascii ''E-'') tag \<longrightarrow>
      extract_step (tok, tag) (ents, Some (ascii ''B-'' @ cat), acc)
        = (entities_append cat (concat (acc @ [tok])) ents, None, [])) \<and>
   (\<not> prefix (ascii ''I-'') tag \<and> \<not> prefix (ascii ''E-'') tag \<longrightarrow>
      extract_step (tok, tag) (ents, Some (ascii ''B-'' @ cat), acc)
        = extract_step (tok, tag) (save_entity (Some (ascii ''B-'' @ cat)) acc ents, None, [])) \<and>
   (acc \<noteq> [] \<longrightarrow>
      save_entity (Some (ascii ''B-'' @ cat)) acc ents = entities_append cat (concat acc) ents)"
proof (intro conjI impI)
  assume "prefix (ascii ''I-'') tag"
  from prefix_tags_distinct(1) [OF this] this
  show "extract_step (tok, tag) (ents, Some (ascii ''B-'' @ cat), acc)
        = (ents, Some (ascii ''B-'' @ cat), acc @ [tok])"
    by (simp add: extract_step_def)
next
  assume "prefix (ascii ''E-'') tag"
  from prefix_tags_distinct(2) [OF this] this
  show "extract_step (tok, tag) (ents, Some (ascii ''B-'' @ cat), acc)
        = (entities_append cat (concat (acc @ [tok])) ents, None, [])"
    by (simp add: extract_step_def)
next
  assume "\<not> prefix (ascii ''I-'') tag \<and> \<not> prefix (ascii ''E-'') tag"
  then show "extract_step (tok, tag) (ents, Some (ascii ''B-'' @ cat), acc)
        = extract_step (tok, tag) (save_entity (Some (ascii ''B-'' @ cat)) acc ents, None, [])"
    by (simp add: extract_step_def Let_def)
next
  assume "acc \<noteq> []"
  then show "save_entity (Some (ascii ''B-'' @ cat)) acc ents
      = entities_append cat (concat acc) ents"
    by (rule save_entity_B)
qed

lemmas dec_eval = extract_entities_from_tokens_def extract_step_def save_entity_def
  entities_append_def entity_type_of_def after_hyphen_def truthy_def hyphen_def ascii_def
  Let_def

theorem decoder_open_step_witness:
  "extract_step ([98], ascii ''I-y'') ([], Some (ascii ''B-'' @ ascii ''x''), [[97]])
     = ([], Some (ascii ''B-'' @ ascii ''x''), [[97], [98]]) \<and>
   extract_step ([98], ascii ''E-y'') ([], Some (ascii ''B-'' @ ascii ''x''), [[97]])
     = ([(ascii ''x'', [[97, 98]])], None, []) \<and>
   extract_step ([98], ascii ''O'') ([], Some (ascii ''B-'' @ ascii ''x''), [[97]])
     = ([(ascii ''x'', [[97]])], None, []) \<and>
   extract_step ([98], ascii ''B-y'') ([], Some (ascii ''B-'' @ ascii ''x''), [[97]])
     = ([(ascii ''x'', [[97]])], Some (ascii ''B-y''), [[98]])"
proof -
  have i: "prefix (ascii ''I-'') (ascii ''I-y'')" and e: "prefix (ascii ''E-'') (ascii ''E-y'')"
    and o: "\<not> prefix (ascii ''I-'') (ascii ''O'') \<and> \<not> prefix (ascii ''E-'') (ascii ''O'')"
    and b: "\<not> prefix (ascii ''I-'') (ascii ''B-y'') \<and> \<not> prefix (ascii ''E-'') (ascii ''B-y'')"
    and n: "[[97::nat]] \<noteq> []"
    by (simp_all add: ascii_def)
  have idle_o: "extract_step ([98], ascii ''O'') ([(ascii ''x'', [[97]])], None, [])
      = ([(ascii ''x'', [[97]])], None, [])"
    and idle_b: "extract_step ([98], ascii ''B-y'') ([(ascii ''x'', [[97]])], None, [])
      = ([(ascii ''x'', [[97]])], Some (ascii ''B-y''), [[98]])"
    and app: "entities_append (ascii ''x'') [97, 98] [] = [(ascii ''x'', [[97, 98]])]"
        "entities_append (ascii ''x'') [97] [] = [(ascii ''x'', [[97]])]"
    by (simp_all add: dec_eval)
  from decoder_open_step [of "ascii ''I-y''" "[98]" "[]" "ascii ''x''" "[[97]]"]
    decoder_open_step [of "ascii ''E-y''" "[98]" "[]" "ascii ''x''" "[[97]]"]
    decoder_open_step [of "ascii ''O''" "[98]" "[]" "ascii ''x''" "[[97]]"]
    decoder_open_step [of "ascii ''B-y''" "[98]" "[]" "ascii ''x''" "[[97]]"]
    i e o b n idle_o idle_b app
  show ?thesis by simp
qed

text \<open>
  C6 as stated fails for an \<^verbatim>\<open>I-\<close> or \<^verbatim>\<open>E-\<close> tag of another category: the decoder never
  compares categories, so after \<^verbatim>\<open>B-x\<close> the character tagged \<^verbatim>\<open>I-y\<close> (or \<^verbatim>\<open>E-y\<close>) is
  appended to the accumulator of \<^verbatim>\<open>x\<close>.
\<close>

theorem decoder_mismatch_counterexample:
  "extract_step ([98], ascii ''I-y'') ([], Some (ascii ''B-x''), [[97]])
     \<noteq> extract_step ([98], ascii ''I-y'') (save_entity (Some (ascii ''B-x'')) [[97]] [], None, []) \<and>
   extract_entities_from_tokens [[97], [98]] [ascii ''B-x'', ascii ''I-y'']
     = [(ascii ''x'', [[97, 98]])] \<and>
   extract_entities_from_tokens [[97], [98]] [ascii ''B-x'', ascii ''E-y'']
     = [(ascii ''x'', [[97, 98]])]"
  by (simp add: dec_eval)

section \<open>The classifier: exceptions and the administrative levels\<close>


lemma find_value_not_str_value:
  "\<forall>s. v \<noteq> PStr s \<Longrightarrow> \<exists>e. find_value depth addr v start used = Inl e"
  by (subst find_value.simps) (cases addr; cases v; simp)

text \<open>On strings \<open>find_value\<close> raises nothing but \<^verbatim>\<open>RecursionError\<close>, and only when the
  characters left of the address are at least as many as the activations left: every
  recursive call moves the start of the search forward.\<close>

lemma find_value_strs_raises:
  "find_value depth (PStr addr) (PStr v) start used = Inl e \<Longrightarrow>
     e = RecursionError \<and> depth \<le> length addr - start"
proof (induction depth arbitrary: start)
  case 0
  then show ?case by (simp add: find_value.simps)
next
  case (Suc d)
  show ?case
  proof (cases "py_find addr v start")
    case None
    with Suc.prems show ?thesis by (simp add: find_value.simps)
  next
    case (Some pos)
    note f = py_find_Some [OF Some]
    show ?thesis
    proof (cases "\<exists>i\<in>used. pos \<le> i \<and> i < pos + length v")
      case False
      with Some Suc.prems show ?thesis by (simp add: find_value.simps)
    next
      case True
      with Some Suc.prems
      have rec: "find_value d (PStr addr) (PStr v) (pos + length v) used = Inl e"
        by (simp add: find_value.simps)
      from Suc.IH [OF rec] have e: "e = RecursionError"
        and d: "d \<le> length addr - (pos + length v)" by blast+
      from True have "0 < length v" by auto
      with f(1) f(2) d have "Suc d \<le> length addr - start" by arith
      with e show ?thesis by simp
    qed
  qed
qed

lemma locate_values_strs_raises:
  "locate_values depth (PStr addr) vs found used = Inl e \<Longrightarrow>
     e = RecursionError \<and> depth \<le> length addr"
proof (induction vs arbitrary: found used)
  case Nil
  then show ?case by simp
next
  case (Cons v vs)
  show ?case
  proof (cases "find_value depth (PStr addr) (PStr (py_strip v)) 0 used")
    case (Inl e')
    with Cons.prems have "e' = e" by simp
    with find_value_strs_raises [OF Inl] show ?thesis by simp
  next
    case (Inr r)
    obtain x u where r: "r = (x, u)" by (cases r)
    show ?thesis
    proof (cases x)
      case None
      with Inr r Cons.prems have "locate_values depth (PStr addr) vs found u = Inl e" by simp
      then show ?thesis by (rule Cons.IH)
    next
      case (Some y)
      with Inr r Cons.prems have "locate_values depth (PStr addr) vs (found @ [y]) u = Inl e"
        by simp
      then show ?thesis by (rule Cons.IH)
    qed
  qed
qed

lemma index_entry_strs_raises:
  assumes "index_entry depth (PStr addr) (k, PStr v) st = Inl e"
  shows "e = RecursionError \<and> depth \<le> length addr"
proof (cases "comma \<in> set v")
  case True
  with assms have "locate_values depth (PStr addr) (py_split comma v) [] (snd st) = Inl e"
    by (simp add: index_entry_def split: sum.splits prod.splits)
  then show ?thesis by (rule locate_values_strs_raises)
next
  case False
  obtain idx used where st: "st = (idx, used)" by (cases st)
  from False assms st have "find_value depth (PStr addr) (PStr v) 0 used = Inl e"
    by (simp add: index_entry_def locate_value_def split: sum.splits prod.splits option.splits)
  from find_value_strs_raises [OF this] show ?thesis by simp
qed

lemma build_indices_strs_raises:
  "build_indices depth (PStr addr) (strs ents) st = Inl e \<Longrightarrow>
     e = RecursionError \<and> depth \<le> length addr"
proof (induction ents arbitrary: st)
  case Nil
  then show ?case by (simp add: strs_def)
next
  case (Cons kv ents)
  obtain k v where kv: "kv = (k, v)" by (cases kv)
  show ?case
  proof (cases "index_entry depth (PStr addr) (k, PStr v) st")
    case (Inl e')
    with Cons.prems kv have "e' = e" by (simp add: strs_def)
    with index_entry_strs_raises [OF Inl] show ?thesis by simp
  next
    case (Inr st1)
    with Cons.prems kv have "build_indices depth (PStr addr) (strs ents) st1 = Inl e"
      by (simp add: strs_def)
    then show ?thesis by (rule Cons.IH)
  qed
qed






lemma locate_value_Inr:
  assumes "locate_value depth addr k val (idx, used) = Inr (idx1, used1)"
  obtains r where "find_value depth addr val 0 used = Inr (r, used1)"
    and "idx1 = (case r of None \<Rightarrow> idx | Some y \<Rightarrow> AList.update k [y] idx)"
proof (cases "find_value depth addr val 0 used")
  case (Inl e)
  with assms show ?thesis by (simp add: locate_value_def)
next
  case (Inr p)
  obtain r u where "p = (r, u)" by (cases p)
  with Inr assms that show ?thesis
    by (cases r) (simp_all add: locate_value_def)
qed

lemma index_entry_Inr:
  assumes "index_entry depth (PStr addr) (k, val) (idx, used) = Inr (idx1, used1)"
  obtains s where "val = PStr s"
proof (cases "\<exists>s. val = PStr s")
  case True
  with that show ?thesis by blast
next
  case False
  then have n: "\<forall>s. val \<noteq> PStr s" by blast
  from find_value_not_str_value [OF n]
  obtain e where "find_value depth (PStr addr) val 0 used = Inl e" by blast
  then have "\<exists>e. locate_value depth (PStr addr) k val (idx, used) = Inl e"
    by (simp add: locate_value_def)
  with assms n show ?thesis
    by (cases val) (auto simp: index_entry_def split: if_splits)
qed



text \<open>The record the body returns: no error field, the text as it was passed, and the
  administrative levels as \<^verbatim>\<open>entities.get\<close> reads them.\<close>

lemma levels_of_fields:
  "error (levels_of entities addr indices) = None"
  "original_text (levels_of entities addr indices) = PStr addr"
  "level1 (levels_of entities addr indices)
     = entities_get entities (ascii ''prov'') (PStr default_prov)"
  "level2 (levels_of entities addr indices) = entities_get entities (ascii ''city'') (PStr [])"
  "level3 (levels_of entities addr indices)
     = entities_get entities (ascii ''district'') (PStr [])"
  "level4 (levels_of entities addr indices) = entities_get entities (ascii ''town'') (PStr [])"
  by (simp_all add: levels_of_def Let_def)

lemma classify_body_returns:
  assumes "classify_body depth entities otext = Inr levels"
  shows "error levels = None" and "original_text levels = otext"
    and "level1 levels = entities_get entities (ascii ''prov'') (PStr default_prov)"
    and "level2 levels = entities_get entities (ascii ''city'') (PStr [])"
    and "level3 levels = entities_get entities (ascii ''district'') (PStr [])"
    and "level4 levels = entities_get entities (ascii ''town'') (PStr [])"
proof -
  from assms obtain indices used where
    b: "build_indices depth otext entities ([], {}) = Inr (indices, used)"
    by (auto simp: classify_body_def split: sum.splits)
  have "error levels = None \<and> original_text levels = otext \<and>
    level1 levels = entities_get entities (ascii ''prov'') (PStr default_prov) \<and>
    level2 levels = entities_get entities (ascii ''city'') (PStr []) \<and>
    level3 levels = entities_get entities (ascii ''district'') (PStr []) \<and>
    level4 levels = entities_get entities (ascii ''town'') (PStr [])"
  proof (cases "\<exists>addr. otext = PStr addr")
    case True
    then obtain addr where "otext = PStr addr" by blast
    with assms b have "levels = levels_of entities addr indices"
      by (simp add: classify_body_def)
    with \<open>otext = PStr addr\<close> show ?thesis by (simp add: levels_of_fields)
  next
    case False
    with assms b obtain rm where "levels = levels_without_spans entities otext rm"
      by (cases otext) (auto simp: classify_body_def split: sum.splits)
    then show ?thesis by (simp add: levels_without_spans_def)
  qed
  then show "error levels = None" and "original_text levels = otext"
    and "level1 levels = entities_get entities (ascii ''prov'') (PStr default_prov)"
    and "level2 levels = entities_get entities (ascii ''city'') (PStr [])"
    and "level3 levels = entities_get entities (ascii ''district'') (PStr [])"
    and "level4 levels = entities_get entities (ascii ''town'') (PStr [])" by blast+
qed

lemma classify_of_build:
  "build_indices depth (PStr addr) entities ([], {}) = Inr (indices, used) \<Longrightarrow>
   classify_elements_to_11_levels depth entities (PStr addr) = levels_of entities addr indices"
  by (simp add: classify_elements_to_11_levels_def classify_body_def)

lemma map_of_strs: "map_of (strs ents) k = map_option PStr (map_of ents k)"
  by (induction ents) (auto simp: strs_def)

text \<open>The search of a one-character value in a text of \<open>n\<close> equal characters that are all in
  use: one activation for each character, and one more to find nothing.\<close>

lemma find_at_prefix: "prefix sub xs \<Longrightarrow> find_at xs sub i = Some i"
  by (cases xs) auto

lemma py_find_replicate:
  "start < n \<Longrightarrow> py_find (replicate n c) [c] start = Some start"
proof -
  assume "start < n"
  then have "drop start (replicate n c) = c # replicate (n - Suc start) c"
    by (cases "n - start") auto
  with \<open>start < n\<close> show ?thesis by (simp add: py_find_def)
qed

lemma find_value_replicate:
  "depth + start \<le> n \<Longrightarrow>
     find_value depth (PStr (replicate n c)) (PStr [c]) start {0..<n} = Inl RecursionError"
proof (induction depth arbitrary: start)
  case 0
  show ?case by (simp add: find_value.simps)
next
  case (Suc d)
  then have lt: "start < n" and rec: "d + Suc start \<le> n" by simp_all
  from lt have c: "\<exists>i\<in>{0..<n}. start \<le> i \<and> i < start + length [c]" by auto
  from Suc.IH [OF rec] py_find_replicate [OF lt] c show ?case
    by (subst find_value.simps) simp
qed

lemma find_value_first:
  assumes "0 < depth" and "py_find addr v 0 = Some 0"
  shows "find_value depth (PStr addr) (PStr v) 0 {}
    = Inr (Some (0, length v), {0..<length v})"
  using assms by (subst find_value.simps) simp

lemma py_find_whole: "py_find s s 0 = Some 0"
  by (simp add: py_find_def find_at_prefix)

text \<open>A point of interest that is the whole text, \<open>n\<close> times one character, and a road
  that is this character: the search of the road is in conflict at every offset and needs
  \<open>n + 1\<close> activations, so it fails at every depth up to \<open>n\<close>.\<close>

lemma classify_body_replicate:
  assumes "0 < depth" and "depth \<le> n" and "c \<noteq> comma"
  shows "classify_body depth (strs [(k, replicate n c), (k', [c])]) (PStr (replicate n c))
    = Inl RecursionError"
proof -
  from assms(3) have nc: "comma \<noteq> c" by simp
  from assms(1) assms(2) have n: "0 < n" by simp
  from find_value_first [OF assms(1) py_find_whole, of "replicate n c"] n nc
  have "index_entry depth (PStr (replicate n c)) (k, PStr (replicate n c)) ([], {})
    = Inr (AList.update k [(0, n)] [], {0..<n})"
    by (simp add: index_entry_def locate_value_def)
  moreover from find_value_replicate [of depth 0 n c] assms(2) nc
  have "index_entry depth (PStr (replicate n c)) (k', PStr [c])
      (AList.update k [(0, n)] [], {0..<n}) = Inl RecursionError"
    by (simp add: index_entry_def locate_value_def)
  ultimately show ?thesis by (simp add: classify_body_def strs_def)
qed

text \<open>
  C8.  For a category map of strings without the key \<^verbatim>\<open>prov\<close> and a text that is a string,
  the call has two outcomes.  Either the body returns: then level 1 is the default province
  and levels 2 to 4 are the raw values of \<^verbatim>\<open>city\<close>, \<^verbatim>\<open>district\<close> and \<^verbatim>\<open>town\<close> (the empty
  string for a missing key), whatever the spans located in the text.  Or the search of a value
  ran out of activations, which needs a text at least as long as the recursion depth that is
  left: then the record is the one of the handler, with \<^verbatim>\<open>RecursionError\<close> in the error
  field and levels 1 to 4 empty.
\<close>

theorem prov_default_unless_recursion:
  assumes "ascii ''prov'' \<notin> fst ` set ents"
  shows "(error (classify_elements_to_11_levels depth (strs ents) (PStr addr)) = None \<longrightarrow>
      level1 (classify_elements_to_11_levels depth (strs ents) (PStr addr))
        = PStr default_prov \<and>
      level2 (classify_elements_to_11_levels depth (strs ents) (PStr addr))
        = (case map_of ents (ascii ''city'') of None \<Rightarrow> PStr [] | Some v \<Rightarrow> PStr v) \<and>
      level3 (classify_elements_to_11_levels depth (strs ents) (PStr addr))
        = (case map_of ents (ascii ''district'') of None \<Rightarrow> PStr [] | Some v \<Rightarrow> PStr v) \<and>
      level4 (classify_elements_to_11_levels depth (strs ents) (PStr addr))
        = (case map_of ents (ascii ''town'') of None \<Rightarrow> PStr [] | Some v \<Rightarrow> PStr v)) \<and>
    (error (classify_elements_to_11_levels depth (strs ents) (PStr addr)) \<noteq> None \<longrightarrow>
      error (classify_elements_to_11_levels depth (strs ents) (PStr addr))
        = Some RecursionError \<and>
      depth \<le> length addr \<and>
      level1 (classify_elements_to_11_levels depth (strs ents) (PStr addr)) = PStr [] \<and>
      level2 (classify_elements_to_11_levels depth (strs ents) (PStr addr)) = PStr [] \<and>
      level3 (classify_elements_to_11_levels depth (strs ents) (PStr addr)) = PStr [] \<and>
      level4 (classify_elements_to_11_levels depth (strs ents) (PStr addr)) = PStr [])"
proof (cases "classify_body depth (strs ents) (PStr addr)")
  case (Inl e)
  then have "build_indices depth (PStr addr) (strs ents) ([], {}) = Inl e"
    by (simp add: classify_body_def split: sum.splits prod.splits)
  from build_indices_strs_raises [OF this] Inl show ?thesis
    by (simp add: classify_elements_to_11_levels_def error_record_def)
next
  case (Inr levels)
  from assms have "map_of ents (ascii ''prov'') = None" by (simp add: map_of_eq_None_iff)
  with classify_body_returns [OF Inr] Inr show ?thesis
    by (simp add: classify_elements_to_11_levels_def entities_get_def map_of_strs
        split: option.splits)
qed

theorem prov_default_unless_recursion_witness:
  "ascii ''prov'' \<notin> fst ` set example_entities \<and>
   error (classify_elements_to_11_levels 1000 (strs example_entities) (PStr example_address))
     = None \<and>
   level1 (classify_elements_to_11_levels 1000 (strs example_entities) (PStr example_address))
     = PStr [24191, 19996, 30465] \<and>
   level2 (classify_elements_to_11_levels 1000 (strs example_entities) (PStr example_address))
     = PStr [26477, 24030, 24066] \<and>
   ascii ''prov'' \<notin> fst ` set [(ascii ''poi'', [97, 97]), (ascii ''road'', [97])] \<and>
   error (classify_elements_to_11_levels 2
       (strs [(ascii ''poi'', [97, 97]), (ascii ''road'', [97])]) (PStr [97, 97]))
     = Some RecursionError \<and>
   level1 (classify_elements_to_11_levels 2
       (strs [(ascii ''poi'', [97, 97]), (ascii ''road'', [97])]) (PStr [97, 97]))
     = PStr []"
proof -
  have h: "ascii ''prov'' \<notin> fst ` set example_entities"
    by (simp add: example_entities_def ascii_def)
  have m: "map_of example_entities (ascii ''city'') = Some [26477, 24030, 24066]"
    by (simp add: example_entities_def ascii_def)
  have l: "\<not> 1000 \<le> length example_address" by (simp add: example_address_def)
  have h2: "ascii ''prov'' \<notin> fst ` set [(ascii ''poi'', [97, 97]), (ascii ''road'', [97])]"
    by (simp add: ascii_def)
  have "classify_body 2 (strs [(ascii ''poi'', replicate 2 97), (ascii ''road'', [97])])
      (PStr (replicate 2 97)) = Inl RecursionError"
    by (rule classify_body_replicate) (simp_all add: comma_def)
  then have e: "error (classify_elements_to_11_levels 2
       (strs [(ascii ''poi'', [97, 97]), (ascii ''road'', [97])]) (PStr [97, 97])) \<noteq> None"
    by (simp add: classify_elements_to_11_levels_def error_record_def numeral_2_eq_2)
  from prov_default_unless_recursion [OF h, of 1000 example_address]
    prov_default_unless_recursion [OF h2, of 2 "[97, 97]"] h h2 m l e
  show ?thesis by (auto simp: default_prov_def)
qed

text \<open>
  C8 as stated fails on the text \<^verbatim>\<open>'a' * 1000\<close> with the point of interest
  \<^verbatim>\<open>'a' * 1000\<close> and the road \<^verbatim>\<open>'a'\<close>, at the interpreter's default recursion limit of
  1000: there is no province, and level 1 is the empty string of the handler.
\<close>

theorem prov_default_counterexample:
  "ascii ''prov'' \<notin> fst ` set [(ascii ''poi'', replicate 1000 97), (ascii ''road'', [97])] \<and>
   level1 (classify_elements_to_11_levels 1000
       (strs [(ascii ''poi'', replicate 1000 97), (ascii ''road'', [97])])
       (PStr (replicate 1000 97))) = PStr [] \<and>
   level1 (classify_elements_to_11_levels 1000
       (strs [(ascii ''poi'', replicate 1000 97), (ascii ''road'', [97])])
       (PStr (replicate 1000 97))) \<noteq> PStr default_prov \<and>
   error (classify_elements_to_11_levels 1000
       (strs [(ascii ''poi'', replicate 1000 97), (ascii ''road'', [97])])
       (PStr (replicate 1000 97))) = Some RecursionError"
proof -
  have "classify_body 1000 (strs [(ascii ''poi'', replicate 1000 97), (ascii ''road'', [97])])
      (PStr (replicate 1000 97)) = Inl RecursionError"
    by (rule classify_body_replicate) (simp_all add: comma_def)
  then show ?thesis
    by (simp add: classify_elements_to_11_levels_def error_record_def default_prov_def
        ascii_def)
qed



section \<open>The anchors\<close>

lemma keep_min_cases:
  obtains r where "keep_min x m = Some r" "r = x \<or> m = Some r" "fst r \<le> fst x"
    "\<forall>mi\<in>set_option m. fst r \<le> fst mi"
proof -
  have "\<exists>r. keep_min x m = Some r \<and> (r = x \<or> m = Some r) \<and> fst r \<le> fst x \<and>
      (\<forall>mi\<in>set_option m. fst r \<le> fst mi)"
  proof (cases m)
    case None
    then show ?thesis by (simp add: keep_min_def)
  next
    case (Some mi)
    then show ?thesis by (cases "fst x < fst mi") (simp_all add: keep_min_def)
  qed
  with that show thesis by blast
qed

lemma keep_max_cases:
  obtains r where "keep_max x m = Some r" "r = x \<or> m = Some r" "fst x \<le> fst r"
    "\<forall>mi\<in>set_option m. fst mi \<le> fst r"
proof -
  have "\<exists>r. keep_max x m = Some r \<and> (r = x \<or> m = Some r) \<and> fst x \<le> fst r \<and>
      (\<forall>mi\<in>set_option m. fst mi \<le> fst r)"
  proof (cases m)
    case None
    then show ?thesis by (simp add: keep_max_def)
  next
    case (Some mi)
    then show ?thesis by (cases "fst mi < fst x") (simp_all add: keep_max_def)
  qed
  with that show thesis by blast
qed

lemma fold_keep_min_None: "fold keep_min xs m = None \<longleftrightarrow> xs = [] \<and> m = None"
  by (induction xs arbitrary: m) (auto simp: keep_min_def split: option.splits)

lemma fold_keep_min_Some:
  "fold keep_min xs m = Some p \<Longrightarrow>
     (p \<in> set xs \<or> m = Some p) \<and> (\<forall>q\<in>set xs. fst p \<le> fst q) \<and>
     (\<forall>mi\<in>set_option m. fst p \<le> fst mi)"
proof (induction xs arbitrary: m)
  case Nil
  then show ?case by simp
next
  case (Cons x xs)
  obtain r where r: "keep_min x m = Some r" "r = x \<or> m = Some r" "fst r \<le> fst x"
    "\<forall>mi\<in>set_option m. fst r \<le> fst mi" by (rule keep_min_cases)
  from Cons.prems r(1) have "fold keep_min xs (Some r) = Some p" by simp
  from Cons.IH [OF this] have ih: "p \<in> set xs \<or> r = p" "\<forall>q\<in>set xs. fst p \<le> fst q"
    "fst p \<le> fst r" by simp_all
  from ih(1) r(2) have "p \<in> set (x # xs) \<or> m = Some p" by auto
  moreover from ih(2,3) r(3) have "\<forall>q\<in>set (x # xs). fst p \<le> fst q" by auto
  moreover from ih(3) r(4) have "\<forall>mi\<in>set_option m. fst p \<le> fst mi" by auto
  ultimately show ?case by blast
qed

lemma fold_keep_max_None: "fold keep_max xs m = None \<longleftrightarrow> xs = [] \<and> m = None"
  by (induction xs arbitrary: m) (auto simp: keep_max_def split: option.splits)

lemma fold_keep_max_Some:
  "fold keep_max xs m = Some p \<Longrightarrow>
     (p \<in> set xs \<or> m = Some p) \<and> (\<forall>q\<in>set xs. fst q \<le> fst p) \<and>
     (\<forall>mi\<in>set_option m. fst mi \<le> fst p)"
proof (induction xs arbitrary: m)
  case Nil
  then show ?case by simp
next
  case (Cons x xs)
  obtain r where r: "keep_max x m = Some r" "r = x \<or> m = Some r" "fst x \<le> fst r"
    "\<forall>mi\<in>set_option m. fst mi \<le> fst r" by (rule keep_max_cases)
  from Cons.prems r(1) have "fold keep_max xs (Some r) = Some p" by simp
  from Cons.IH [OF this] have ih: "p \<in> set xs \<or> r = p" "\<forall>q\<in>set xs. fst q \<le> fst p"
    "fst r \<le> fst p" by simp_all
  from ih(1) r(2) have "p \<in> set (x # xs) \<or> m = Some p" by auto
  moreover from ih(2,3) r(3) have "\<forall>q\<in>set (x # xs). fst q \<le> fst p" by auto
  moreover from ih(3) r(4) have "\<forall>mi\<in>set_option m. fst mi \<le> fst p" by auto
  ultimately show ?case by blast
qed

lemma anchors_of_windows:
  "poi_anchor (level_windows_of indices) = poi_min_index indices"
  "admin_anchor (level_windows_of indices) = admin_max_index indices"
  by (simp_all add: level_windows_of_def windows_poi_def windows_admin_def windows_none_def
      Let_def split_beta split: option.splits)

text \<open>
  C9.  The POI anchor is a located span of the categories \<^verbatim>\<open>poi\<close>, \<^verbatim>\<open>subpoi\<close>,
  \<^verbatim>\<open>community\<close>, \<^verbatim>\<open>devzone\<close>, \<^verbatim>\<open>village_group\<close> whose start is the smallest among
  them, absent exactly when none is located; the administrative anchor is a located span of
  \<^verbatim>\<open>prov\<close>, \<^verbatim>\<open>city\<close>, \<^verbatim>\<open>district\<close>, \<^verbatim>\<open>town\<close> whose start is the largest among them,
  absent exactly when none is located.
\<close>

theorem anchors_extremal:
  "(poi_anchor (level_windows_of indices) = None \<longleftrightarrow> spans_of indices poi_keys = []) \<and>
   (poi_anchor (level_windows_of indices) = Some p \<longrightarrow>
      p \<in> set (spans_of indices poi_keys) \<and>
      (\<forall>q\<in>set (spans_of indices poi_keys). fst p \<le> fst q)) \<and>
   (admin_anchor (level_windows_of indices) = None \<longleftrightarrow> spans_of indices admin_keys = []) \<and>
   (admin_anchor (level_windows_of indices) = Some a \<longrightarrow>
      a \<in> set (spans_of indices admin_keys) \<and>
      (\<forall>q\<in>set (spans_of indices admin_keys). fst q \<le> fst a))"
proof -
  have 1: "poi_anchor (level_windows_of indices) = None \<longleftrightarrow> spans_of indices poi_keys = []"
    by (simp add: anchors_of_windows poi_min_index_def fold_keep_min_None)
  have 2: "p \<in> set (spans_of indices poi_keys) \<and>
      (\<forall>q\<in>set (spans_of indices poi_keys). fst p \<le> fst q)"
    if "poi_anchor (level_windows_of indices) = Some p"
    using fold_keep_min_Some [of "spans_of indices poi_keys" None p] that
    by (simp add: anchors_of_windows poi_min_index_def)
  have 3: "admin_anchor (level_windows_of indices) = None \<longleftrightarrow> spans_of indices admin_keys = []"
    by (simp add: anchors_of_windows admin_max_index_def fold_keep_max_None)
  have 4: "a \<in> set (spans_of indices admin_keys) \<and>
      (\<forall>q\<in>set (spans_of indices admin_keys). fst q \<le> fst a)"
    if "admin_anchor (level_windows_of indices) = Some a"
    using fold_keep_max_Some [of "spans_of indices admin_keys" None a] that
    by (simp add: anchors_of_windows admin_max_index_def)
  from 1 2 3 4 show ?thesis by blast
qed

lemmas cls_eval = classify_elements_to_11_levels_def classify_body_def index_entry_def
  locate_value_def find_value.simps py_find_def levels_of_def level_windows_of_def
  windows_poi_def windows_admin_def windows_none_def search_10_11_def search_9_to_11_def
  search_8_to_11_def poi_min_index_def admin_max_index_def
  spans_of_def poi_keys_def admin_keys_def road_direction_keys_def additional_poi_keys_def
  keep_min_def keep_max_def keep_both_def scan_def max_of_def after_def valid_keys_def
  keep_latest_def latest_max_index_def level_text_def py_slice_def py_strip_def py_isspace_def
  remark_of_def remaining_offsets_def used_indices_final_def all_spans_def entities_get_def
  strs_def comma_def ascii_def Let_def

theorem anchors_extremal_witness:
  "poi_anchor (level_windows_of example_indices) = Some (11, 14) \<and>
   admin_anchor (level_windows_of example_indices) = Some (8, 11) \<and>
   spans_of example_indices poi_keys = [(14, 16), (11, 14)] \<and>
   spans_of example_indices admin_keys = [(2, 5), (5, 8), (8, 11)] \<and>
   (11, 14) \<in> set (spans_of example_indices poi_keys) \<and>
   (8, 11) \<in> set (spans_of example_indices admin_keys)"
proof -
  have p: "poi_anchor (level_windows_of example_indices) = Some (11, 14)"
    and a: "admin_anchor (level_windows_of example_indices) = Some (8, 11)"
    and sp: "spans_of example_indices poi_keys = [(14, 16), (11, 14)]"
    and sa: "spans_of example_indices admin_keys = [(2, 5), (5, 8), (8, 11)]"
    by (simp_all add: example_indices_def cls_eval)
  from anchors_extremal [of example_indices "(11, 14)" "(8, 11)"] p a sp sa
  show ?thesis by simp
qed

section \<open>Facts about the level searches\<close>

lemma keep_both_fst: "map_option fst (keep_both x w) = keep_min x (map_option fst w)"
  by (cases w) (simp_all add: keep_both_def keep_min_def split_beta)

lemma keep_both_snd: "map_option snd (keep_both x w) = keep_max x (map_option snd w)"
  by (cases w) (simp_all add: keep_both_def keep_max_def split_beta)

lemma fold_scan_fst:
  "map_option fst (fold (\<lambda>index w. if P (fst index) then keep_both index w else w) xs w)
     = fold keep_min (filter (\<lambda>x. P (fst x)) xs) (map_option fst w)"
  by (induction xs arbitrary: w) (simp_all add: keep_both_fst)

lemma fold_scan_snd:
  "map_option snd (fold (\<lambda>index w. if P (fst index) then keep_both index w else w) xs w)
     = fold keep_max (filter (\<lambda>x. P (fst x)) xs) (map_option snd w)"
  by (induction xs arbitrary: w) (simp_all add: keep_both_snd)

lemma scan_None: "scan P xs = None \<longleftrightarrow> (\<forall>x\<in>set xs. \<not> P (fst x))"
proof -
  have "scan P xs = None \<longleftrightarrow> map_option fst (scan P xs) = None" by simp
  also have "\<dots> \<longleftrightarrow> filter (\<lambda>x. P (fst x)) xs = []"
    unfolding scan_def fold_scan_fst by (simp add: fold_keep_min_None)
  finally show ?thesis by (simp add: filter_empty_conv)
qed

lemma scan_Some:
  assumes "scan P xs = Some (mn, mx)"
  shows "mn \<in> set xs" "P (fst mn)" "mx \<in> set xs" "P (fst mx)"
    and "\<forall>x\<in>set xs. P (fst x) \<longrightarrow> fst mn \<le> fst x \<and> fst x \<le> fst mx"
proof -
  from assms have "map_option fst (scan P xs) = Some mn" by simp
  then have "fold keep_min (filter (\<lambda>x. P (fst x)) xs) None = Some mn"
    unfolding scan_def fold_scan_fst by simp
  from fold_keep_min_Some [OF this]
  have a: "mn \<in> set xs \<and> P (fst mn)" "\<forall>x\<in>set xs. P (fst x) \<longrightarrow> fst mn \<le> fst x" by auto
  from assms have "map_option snd (scan P xs) = Some mx" by simp
  then have "fold keep_max (filter (\<lambda>x. P (fst x)) xs) None = Some mx"
    unfolding scan_def fold_scan_snd by simp
  from fold_keep_max_Some [OF this]
  have b: "mx \<in> set xs \<and> P (fst mx)" "\<forall>x\<in>set xs. P (fst x) \<longrightarrow> fst x \<le> fst mx" by auto
  from a b show "mn \<in> set xs" "P (fst mn)" "mx \<in> set xs" "P (fst mx)"
    "\<forall>x\<in>set xs. P (fst x) \<longrightarrow> fst mn \<le> fst x \<and> fst x \<le> fst mx" by blast+
qed

lemma after_iff: "after b start \<longleftrightarrow> snd b \<le> start"
  by (auto simp: after_def)

lemma keep_latest_cases:
  obtains r where "keep_latest x m = Some r" "r = x \<or> m = Some r" "snd x \<le> snd r"
    "\<forall>mi\<in>set_option m. snd mi \<le> snd r"
proof -
  have "\<exists>r. keep_latest x m = Some r \<and> (r = x \<or> m = Some r) \<and> snd x \<le> snd r \<and>
      (\<forall>mi\<in>set_option m. snd mi \<le> snd r)"
  proof (cases m)
    case None
    then show ?thesis by (simp add: keep_latest_def)
  next
    case (Some mi)
    then show ?thesis by (cases "snd mi < snd x") (simp_all add: keep_latest_def)
  qed
  with that show thesis by blast
qed

lemma fold_keep_latest_None: "fold keep_latest xs m = None \<longleftrightarrow> xs = [] \<and> m = None"
  by (induction xs arbitrary: m) (auto simp: keep_latest_def split: option.splits)

lemma fold_keep_latest_Some:
  "fold keep_latest xs m = Some p \<Longrightarrow>
     (p \<in> set xs \<or> m = Some p) \<and> (\<forall>q\<in>set xs. snd q \<le> snd p) \<and>
     (\<forall>mi\<in>set_option m. snd mi \<le> snd p)"
proof (induction xs arbitrary: m)
  case Nil
  then show ?case by simp
next
  case (Cons x xs)
  obtain r where r: "keep_latest x m = Some r" "r = x \<or> m = Some r" "snd x \<le> snd r"
    "\<forall>mi\<in>set_option m. snd mi \<le> snd r" by (rule keep_latest_cases)
  from Cons.prems r(1) have "fold keep_latest xs (Some r) = Some p" by simp
  from Cons.IH [OF this] have ih: "p \<in> set xs \<or> r = p" "\<forall>q\<in>set xs. snd q \<le> snd p"
    "snd r \<le> snd p" by simp_all
  from ih(1) r(2) have "p \<in> set (x # xs) \<or> m = Some p" by auto
  moreover from ih(2,3) r(3) have "\<forall>q\<in>set (x # xs). snd q \<le> snd p" by auto
  moreover from ih(3) r(4) have "\<forall>mi\<in>set_option m. snd mi \<le> snd p" by auto
  ultimately show ?case by blast
qed

lemma latest_max_index_None: "latest_max_index keys = None \<longleftrightarrow> valid_keys keys = []"
  by (simp add: latest_max_index_def fold_keep_latest_None)

lemma latest_max_index_Some:
  assumes "latest_max_index keys = Some l"
  shows "l \<in> set (valid_keys keys)" and "\<forall>b\<in>set (valid_keys keys). snd b \<le> snd l"
  using fold_keep_latest_Some [of "valid_keys keys" None l] assms
  by (simp_all add: latest_max_index_def)

text \<open>One search behind the latest boundary.\<close>

lemma scan_after_latest:
  assumes "latest_max_index keys = Some l" and "scan (after l) xs = Some (mn, mx)"
    and "b \<in> set (valid_keys keys)"
  shows "snd b \<le> fst mn"
proof -
  from scan_Some(2) [OF assms(2)] have "snd l \<le> fst mn" by (simp add: after_iff)
  moreover from latest_max_index_Some(2) [OF assms(1)] assms(3) have "snd b \<le> snd l" by blast
  ultimately show ?thesis by simp
qed

section \<open>The located spans and the remark\<close>

lemma find_at_empty [simp]: "find_at xs [] i = Some i"
  by (cases xs) simp_all

lemma find_value_result:
  "find_value depth (PStr addr) (PStr v) start used = Inr (r, used1) \<Longrightarrow>
     (case r of
        None \<Rightarrow> used1 = used
      | Some x \<Rightarrow> used1 = used \<union> {fst x..<snd x} \<and> {fst x..<snd x} \<inter> used = {} \<and>
          snd x = fst x + length v \<and> snd x \<le> length addr \<and> start \<le> fst x \<and>
          py_slice addr (fst x) (snd x) = v)"
proof (induction depth arbitrary: start)
  case 0
  then show ?case by (simp add: find_value.simps)
next
  case (Suc d)
  show ?case
  proof (cases "py_find addr v start")
    case None
    with Suc.prems show ?thesis by (simp add: find_value.simps)
  next
    case (Some pos)
    note f = py_find_Some [OF Some]
    show ?thesis
    proof (cases "\<exists>i\<in>used. pos \<le> i \<and> i < pos + length v")
      case True
      with Some Suc.prems
      have rec: "find_value d (PStr addr) (PStr v) (pos + length v) used = Inr (r, used1)"
        by (simp add: find_value.simps)
      from Suc.IH [OF rec] f(1) show ?thesis
        by (auto split: option.splits)
    next
      case False
      with Some Suc.prems have "r = Some (pos, pos + length v)"
        "used1 = used \<union> {pos..<pos + length v}" by (simp_all add: find_value.simps)
      moreover from False have "{pos..<pos + length v} \<inter> used = {}" by auto
      ultimately show ?thesis using f by simp
    qed
  qed
qed

lemma find_value_empty:
  "find_value depth (PStr addr) (PStr []) 0 used = Inr (Some y, used1) \<Longrightarrow> y = (0, 0)"
  by (subst (asm) find_value.simps) (simp add: py_find_def split: if_splits)

lemma spans_disjoint_snoc:
  "spans_disjoint (xs @ [y]) \<longleftrightarrow>
     spans_disjoint xs \<and> (\<forall>x\<in>set xs. {fst x..<snd x} \<inter> {fst y..<snd y} = {})"
  by (induction xs) auto

lemma located_snoc:
  assumes "located addr xs used"
    and "find_value depth (PStr addr) (PStr v) 0 used = Inr (Some y, used1)"
  shows "located addr (xs @ [y]) used1"
proof -
  from find_value_result [OF assms(2)]
  have c: "used1 = used \<union> {fst y..<snd y} \<and> {fst y..<snd y} \<inter> used = {} \<and>
      snd y = fst y + length v \<and> snd y \<le> length addr \<and> 0 \<le> fst y \<and>
      py_slice addr (fst y) (snd y) = v" unfolding option.case .
  from c have u: "used1 = used \<union> {fst y..<snd y}" by blast
  from c have d: "{fst y..<snd y} \<inter> used = {}" by blast
  from c have l: "snd y = fst y + length v" by blast
  from c have b: "snd y \<le> length addr" by blast
  have e: "fst y < snd y \<or> y = (0, 0)"
  proof (cases "v = []")
    case True
    with assms(2) have "y = (0, 0)" by (auto dest: find_value_empty)
    then show ?thesis by simp
  next
    case False
    with l show ?thesis by simp
  qed
  from assms(1) d have "\<forall>x\<in>set xs. {fst x..<snd x} \<inter> {fst y..<snd y} = {}"
    unfolding located_def by blast
  with assms(1) u b e show ?thesis
    unfolding located_def spans_disjoint_snoc by auto
qed

lemma located_mono:
  "located addr xs used \<Longrightarrow> find_value depth (PStr addr) (PStr v) 0 used = Inr (None, used1) \<Longrightarrow>
   located addr xs used1"
  by (drule find_value_result) simp

lemma locate_values_located:
  "locate_values depth (PStr addr) vs found used = Inr (found1, used1) \<Longrightarrow>
   located addr (pre @ found) used \<Longrightarrow> located addr (pre @ found1) used1"
proof (induction vs arbitrary: found used)
  case Nil
  then show ?case by simp
next
  case (Cons v vs)
  from Cons.prems(1) obtain r u where
    fv: "find_value depth (PStr addr) (PStr (py_strip v)) 0 used = Inr (r, u)"
    by (cases "find_value depth (PStr addr) (PStr (py_strip v)) 0 used") auto
  show ?case
  proof (cases r)
    case None
    with Cons.prems(1) fv
    have "locate_values depth (PStr addr) vs found u = Inr (found1, used1)" by simp
    moreover from Cons.prems(2) fv None have "located addr (pre @ found) u"
      by (auto dest: located_mono)
    ultimately show ?thesis by (rule Cons.IH)
  next
    case (Some y)
    with Cons.prems(1) fv
    have "locate_values depth (PStr addr) vs (found @ [y]) u = Inr (found1, used1)"
      by simp
    moreover from located_snoc [OF Cons.prems(2)] fv Some
    have "located addr (pre @ found @ [y]) u" by simp
    ultimately show ?thesis by (rule Cons.IH)
  qed
qed

lemma update_fresh: "k \<notin> fst ` set al \<Longrightarrow> AList.update k v al = al @ [(k, v)]"
  by (induction al) auto

lemma all_spans_snoc: "all_spans (al @ [(k, v)]) = all_spans al @ v"
  by (simp add: all_spans_def)

lemma index_entry_located:
  assumes "index_entry depth (PStr addr) (k, val) (idx, used) = Inr (idx1, used1)"
    and "k \<notin> fst ` set idx" and "located addr (all_spans idx) used"
  shows "located addr (all_spans idx1) used1" and "fst ` set idx1 \<subseteq> insert k (fst ` set idx)"
proof -
  from assms(1) obtain s where val: "val = PStr s" by (rule index_entry_Inr)
  have "located addr (all_spans idx1) used1 \<and>
    (idx1 = idx \<or> (\<exists>v. idx1 = AList.update k v idx))"
  proof (cases "comma \<in> set s")
    case True
    with assms(1) val obtain found where
      lv: "locate_values depth (PStr addr) (py_split comma s) [] used = Inr (found, used1)"
      and i1: "idx1 = AList.update k found idx"
      by (auto simp: index_entry_def split: sum.splits prod.splits)
    from locate_values_located [OF lv, of "all_spans idx"] assms(3)
    have "located addr (all_spans idx @ found) used1" by simp
    with i1 assms(2) show ?thesis by (auto simp: update_fresh all_spans_snoc)
  next
    case False
    with assms(1) val
    have "locate_value depth (PStr addr) k (PStr s) (idx, used) = Inr (idx1, used1)"
      by (simp add: index_entry_def)
    then obtain r where fv: "find_value depth (PStr addr) (PStr s) 0 used = Inr (r, used1)"
      and i1: "idx1 = (case r of None \<Rightarrow> idx | Some y \<Rightarrow> AList.update k [y] idx)"
      by (rule locate_value_Inr)
    show ?thesis
    proof (cases r)
      case None
      with assms(3) fv i1 show ?thesis by (auto dest: located_mono)
    next
      case (Some y)
      with located_snoc [OF assms(3)] fv
      have "located addr (all_spans idx @ [y]) used1" by simp
      with Some i1 assms(2) show ?thesis by (auto simp: update_fresh all_spans_snoc)
    qed
  qed
  then have loc: "located addr (all_spans idx1) used1"
    and upd: "idx1 = idx \<or> (\<exists>v. idx1 = AList.update k v idx)" by blast+
  show "located addr (all_spans idx1) used1" by (rule loc)
  from upd show "fst ` set idx1 \<subseteq> insert k (fst ` set idx)"
  proof (elim disjE exE)
    assume "idx1 = idx"
    then show ?thesis by blast
  next
    fix v assume "idx1 = AList.update k v idx"
    then have "fst ` set idx1 = {k} \<union> fst ` set idx" by (simp add: AList.dom_update)
    then show ?thesis by blast
  qed
qed

lemma build_indices_located:
  "build_indices depth (PStr addr) kvs (idx, used) = Inr (idx1, used1) \<Longrightarrow>
   distinct (map fst kvs) \<Longrightarrow> fst ` set idx \<inter> fst ` set kvs = {} \<Longrightarrow>
   located addr (all_spans idx) used \<Longrightarrow> located addr (all_spans idx1) used1"
proof (induction kvs arbitrary: idx used)
  case Nil
  then show ?case by simp
next
  case (Cons kv kvs)
  obtain k val where kv: "kv = (k, val)" by (cases kv)
  from Cons.prems(1) kv obtain idx2 used2 where
    step: "index_entry depth (PStr addr) (k, val) (idx, used) = Inr (idx2, used2)"
    and rest: "build_indices depth (PStr addr) kvs (idx2, used2) = Inr (idx1, used1)"
    by (cases "index_entry depth (PStr addr) (k, val) (idx, used)") auto
  from Cons.prems(3) kv have fresh: "k \<notin> fst ` set idx" by auto
  note st = index_entry_located [OF step fresh Cons.prems(4)]
  from Cons.prems(2) kv have d: "distinct (map fst kvs)" and nk: "k \<notin> fst ` set kvs"
    by simp_all
  from Cons.prems(3) have "fst ` set idx \<inter> fst ` set kvs = {}" by auto
  with st(2) nk have "fst ` set idx2 \<inter> fst ` set kvs = {}" by blast
  from Cons.IH [OF rest d this st(1)] show ?case .
qed

lemma fold_used_iff:
  "i \<in> fold (\<lambda>index used. used \<union> {fst index..<snd index}) xs u \<longleftrightarrow>
     i \<in> u \<or> (\<exists>x\<in>set xs. covers i x)"
  by (induction xs arbitrary: u) (auto simp: covers_def)

lemma used_indices_final_iff:
  "i \<in> used_indices_final indices \<longleftrightarrow> (\<exists>x\<in>set (all_spans indices). covers i x)"
  by (simp add: used_indices_final_def fold_used_iff)

lemma spans_disjoint_covers:
  "spans_disjoint xs \<Longrightarrow> length (filter (covers i) xs) \<le> 1"
proof (induction xs)
  case Nil
  show ?case by simp
next
  case (Cons x xs)
  show ?case
  proof (cases "covers i x")
    case True
    have "\<forall>y\<in>set xs. \<not> covers i y"
    proof
      fix y assume "y \<in> set xs"
      with Cons.prems have "{fst x..<snd x} \<inter> {fst y..<snd y} = {}" by simp
      with True show "\<not> covers i y" by (auto simp: covers_def)
    qed
    then have "filter (covers i) xs = []" by (simp add: filter_empty_conv)
    with True show ?thesis by simp
  next
    case False
    with Cons show ?thesis by simp
  qed
qed

lemma count_list_upt: "count_list [0..<n] i = (if i < n then 1 else 0)"
  by (induction n) auto

lemma count_list_filter: "count_list (filter P xs) i = (if P i then count_list xs i else 0)"
  by (induction xs) auto

lemma count_remaining:
  "count_list (remaining_offsets addr indices) i =
     (if i < length addr \<and> i \<notin> used_indices_final indices then 1 else 0)"
  by (simp add: remaining_offsets_def count_list_filter count_list_upt)

text \<open>
  C3 (amended).  When the body does not raise, every offset of the address lies in exactly
  one located span (of any category) or else is, exactly once, one of the offsets left for
  the remark; no located span reaches beyond the address; and the remark is the characters
  at the offsets left, in order, with leading and trailing white space removed.
\<close>

theorem located_spans_and_remark_partition:
  assumes "distinct (map fst entities)"
    and "build_indices depth (PStr addr) entities ([], {}) = Inr (indices, used)"
  shows "(i < length addr \<longrightarrow>
            length (filter (covers i) (all_spans indices))
              + count_list (remaining_offsets addr indices) i = 1) \<and>
         (length addr \<le> i \<longrightarrow>
            length (filter (covers i) (all_spans indices))
              + count_list (remaining_offsets addr indices) i = 0) \<and>
         remark (classify_elements_to_11_levels depth entities (PStr addr))
           = py_strip (map (\<lambda>i. addr ! i) (remaining_offsets addr indices))"
proof -
  have "located addr (all_spans ([] :: indices)) {}"
    by (simp add: located_def all_spans_def)
  with build_indices_located [OF assms(2) assms(1)]
  have loc: "located addr (all_spans indices) used" by simp
  then have dis: "spans_disjoint (all_spans indices)"
    and bound: "\<forall>x\<in>set (all_spans indices). snd x \<le> length addr"
    by (simp_all add: located_def)
  have le1: "length (filter (covers i) (all_spans indices)) \<le> 1"
    using dis by (rule spans_disjoint_covers)
  have ex: "i \<in> used_indices_final indices \<longleftrightarrow> filter (covers i) (all_spans indices) \<noteq> []"
    by (simp add: used_indices_final_iff filter_empty_conv)
  have a: "length (filter (covers i) (all_spans indices))
      + count_list (remaining_offsets addr indices) i = 1" if "i < length addr"
  proof (cases "i \<in> used_indices_final indices")
    case True
    with ex have "length (filter (covers i) (all_spans indices)) \<noteq> 0" by simp
    with le1 have "length (filter (covers i) (all_spans indices)) = 1" by arith
    with True show ?thesis by (simp add: count_remaining)
  next
    case False
    with ex that show ?thesis by (simp add: count_remaining)
  qed
  have b: "length (filter (covers i) (all_spans indices))
      + count_list (remaining_offsets addr indices) i = 0" if "length addr \<le> i"
  proof -
    from bound that have "\<forall>x\<in>set (all_spans indices). \<not> covers i x"
      by (auto simp: covers_def)
    then have "filter (covers i) (all_spans indices) = []" by (simp add: filter_empty_conv)
    with that show ?thesis by (simp add: count_remaining)
  qed
  have c: "remark (classify_elements_to_11_levels depth entities (PStr addr))
      = py_strip (map (\<lambda>i. addr ! i) (remaining_offsets addr indices))"
    by (simp add: classify_of_build [OF assms(2)] levels_of_def Let_def remark_of_def)
  from a b c show ?thesis by blast
qed

lemma conflict_interval:
  "(\<exists>i\<in>{a..<b}. p \<le> i \<and> i < q) \<longleftrightarrow> max a p < min b (q::nat)"
proof
  assume "\<exists>i\<in>{a..<b}. p \<le> i \<and> i < q"
  then show "max a p < min b q" by auto
next
  assume "max a p < min b q"
  then have "max a p \<in> {a..<b} \<and> p \<le> max a p \<and> max a p < q" by auto
  then show "\<exists>i\<in>{a..<b}. p \<le> i \<and> i < q" by blast
qed

lemmas build_eval = index_entry_def locate_value_def find_value.simps py_find_def conflict_interval bex_Un
  strs_def comma_def ascii_def Let_def numeral_2_eq_2 [symmetric]

lemma example_build:
  "build_indices 1000 (PStr example_address) (strs example_entities) ([], {})
     = Inr (example_indices,
            {2..<5} \<union> {5..<8} \<union> {8..<11} \<union> {11..<14} \<union> {14..<16} \<union> {16..<21})"
  by (simp add: example_address_def example_entities_def example_indices_def build_eval)

theorem located_spans_and_remark_partition_witness:
  "distinct (map fst (strs example_entities)) \<and>
   build_indices 1000 (PStr example_address) (strs example_entities) ([], {})
     = Inr (example_indices,
            {2..<5} \<union> {5..<8} \<union> {8..<11} \<union> {11..<14} \<union> {14..<16} \<union> {16..<21}) \<and>
   (1::nat) < length example_address \<and>
   length (filter (covers 1) (all_spans example_indices))
     + count_list (remaining_offsets example_address example_indices) 1 = 1 \<and>
   length example_address \<le> (21::nat) \<and>
   length (filter (covers 21) (all_spans example_indices))
     + count_list (remaining_offsets example_address example_indices) 21 = 0 \<and>
   remark (classify_elements_to_11_levels 1000 (strs example_entities)
       (PStr example_address))
     = py_strip (map (\<lambda>i. example_address ! i)
                     (remaining_offsets example_address example_indices))"
proof -
  have d: "distinct (map fst (strs example_entities))"
    by (simp add: example_entities_def strs_def ascii_def)
  have l1: "(1::nat) < length example_address" and l2: "length example_address \<le> (21::nat)"
    by (simp_all add: example_address_def)
  from located_spans_and_remark_partition [OF d example_build, of 1]
    located_spans_and_remark_partition [OF d example_build, of 21] d example_build l1 l2
  show ?thesis by simp
qed

text \<open>
  C3 as stated fails: the remark is the complement of the located spans, not of the spans
  that reach a level.  For the address \<^verbatim>\<open>ab\<close> with \<^verbatim>\<open>{assist: 'ab'}\<close> the span
  \<open>(0, 2)\<close> is located, no level takes it, and the remark is empty: neither offset is
  accounted for.
\<close>

theorem coverage_counterexample:
  "build_indices 1000 (PStr (ascii ''ab'')) [(ascii ''assist'', PStr (ascii ''ab''))] ([], {})
     = Inr ([(ascii ''assist'', [(0, 2)])], {0..<2}) \<and>
   level_offsets [(ascii ''assist'', [(0, 2)])] = {} \<and>
   remaining_offsets (ascii ''ab'') [(ascii ''assist'', [(0, 2)])] = [] \<and>
   classify_elements_to_11_levels 1000 [(ascii ''assist'', PStr (ascii ''ab''))]
       (PStr (ascii ''ab''))
     = \<lparr>level1 = PStr default_prov, level2 = PStr [], level3 = PStr [], level4 = PStr [],
        level5 = [], level6 = [], level7 = [], level8 = [], level9 = [], level10 = [],
        level11 = [], remark = [], original_text = PStr (ascii ''ab''), error = None\<rparr>"
  by (simp add: cls_eval build_eval level_offsets_def window_offsets_def default_prov_def)

section \<open>The boundaries of the level searches\<close>

lemma after_latest:
  assumes "latest_max_index keys = Some l"
  shows "after l = behind keys"
proof
  fix start
  from latest_max_index_Some [OF assms]
  have "l \<in> set (valid_keys keys)" "\<forall>b\<in>set (valid_keys keys). snd b \<le> snd l" by blast+
  then show "after l start = behind keys start"
    unfolding after_iff behind_def by (meson order_trans)
qed

lemma set_valid_keys: "set (valid_keys keys) = {b. Some b \<in> set keys}"
proof (induction keys)
  case Nil
  show ?case by (simp add: valid_keys_def)
next
  case (Cons x keys)
  have "valid_keys (x # keys) = (case x of None \<Rightarrow> [] | Some b \<Rightarrow> [b]) @ valid_keys keys"
    by (simp add: valid_keys_def)
  with Cons show ?case by (cases x) auto
qed

lemma latest_exists: "Some a \<in> set keys \<Longrightarrow> \<exists>l. latest_max_index keys = Some l"
proof -
  assume "Some a \<in> set keys"
  then have "a \<in> set (valid_keys keys)" by (simp add: set_valid_keys)
  then have "valid_keys keys \<noteq> []" by auto
  then have "latest_max_index keys \<noteq> None" by (simp add: latest_max_index_None)
  then show ?thesis by blast
qed

lemma after_single: "after p = behind [Some p]"
proof
  fix start
  show "after p start = behind [Some p] start"
    by (simp add: after_iff behind_def set_valid_keys)
qed

lemma search_10_11_behind:
  assumes "Some a \<in> set keys"
  shows "search_10_11 indices keys =
     (scan (behind keys) (spans_of indices [ascii ''floorno'']),
      scan (behind (keys @ [max_of (scan (behind keys) (spans_of indices [ascii ''floorno'']))]))
           (spans_of indices [ascii ''roomno'']))"
proof -
  from latest_exists [OF assms] obtain l where l: "latest_max_index keys = Some l" by blast
  define fl where "fl = scan (behind keys) (spans_of indices [ascii ''floorno''])"
  from assms have "Some a \<in> set (keys @ [max_of fl])" by simp
  from latest_exists [OF this] obtain l1 where
    l1: "latest_max_index (keys @ [max_of fl]) = Some l1" by blast
  show ?thesis
    unfolding search_10_11_def l option.case after_latest [OF l] Let_def
    unfolding fl_def [symmetric] l1 option.case after_latest [OF l1] ..
qed

lemma search_9_to_11_behind:
  assumes "Some a \<in> set keys"
  shows "search_9_to_11 indices keys =
     (scan (behind keys) (spans_of indices [ascii ''cellno'']),
      search_10_11 indices
        (keys @ [max_of (scan (behind keys) (spans_of indices [ascii ''cellno'']))]))"
proof -
  from latest_exists [OF assms] obtain l where l: "latest_max_index keys = Some l" by blast
  show ?thesis
    unfolding search_9_to_11_def l option.case after_latest [OF l] Let_def ..
qed

lemma search_8_to_11_behind:
  assumes "Some a \<in> set keys"
  shows "search_8_to_11 indices keys =
     (scan (behind keys) (spans_of indices [ascii ''houseno'']),
      search_9_to_11 indices
        (keys @ [max_of (scan (behind keys) (spans_of indices [ascii ''houseno'']))]))"
proof -
  from latest_exists [OF assms] obtain l where l: "latest_max_index keys = Some l" by blast
  show ?thesis
    unfolding search_8_to_11_def l option.case after_latest [OF l] Let_def ..
qed

lemma windows_poi_fields:
  fixes indices p admin
  defines "w \<equiv> windows_poi indices p admin"
  shows "poi_anchor w = Some p" and "admin_anchor w = admin"
    and "w_road_direction w =
           (case admin of
              Some a \<Rightarrow> scan (\<lambda>start. after a start \<and> start < fst p)
                             (spans_of indices road_direction_keys)
            | None \<Rightarrow> scan (\<lambda>start. start < fst p) (spans_of indices road_direction_keys))"
    and "w_additional_poi w = scan (after p) (spans_of indices additional_poi_keys)"
    and "w_cellno w =
           scan (\<lambda>start. case max_of (w_additional_poi w) of
                            Some m \<Rightarrow> after m start | None \<Rightarrow> after p start)
                (spans_of indices [ascii ''cellno''])"
    and "(w_floorno w, w_roomno w) =
           search_10_11 indices
             [admin, max_of (w_road_direction w), max_of (w_roadno w), Some p,
              max_of (w_additional_poi w), max_of (w_cellno w)]"
  by (simp_all add: w_def windows_poi_def Let_def split_beta)

lemma windows_admin_fields:
  fixes indices a
  defines "w \<equiv> windows_admin indices a"
  shows "poi_anchor w = None" and "admin_anchor w = Some a"
    and "w_road_direction w = scan (after a) (spans_of indices road_direction_keys)"
    and "(w_additional_poi w, w_cellno w, w_floorno w, w_roomno w) =
           search_8_to_11 indices [Some a, max_of (w_road_direction w), max_of (w_roadno w)]"
  by (simp_all add: w_def windows_admin_def Let_def split_beta)

lemma windows_none_fields:
  "w_additional_poi (windows_none indices) = None" "w_cellno (windows_none indices) = None"
  "w_floorno (windows_none indices) = None" "w_roomno (windows_none indices) = None"
  by (simp_all add: windows_none_def Let_def)

lemma poi_branch_boundary:
  fixes indices p admin
  defines "w \<equiv> windows_poi indices p admin"
  assumes "k \<in> {8, 9, 10, 11}"
  shows "level_window w k
    = scan (behind (latest_keys_at w k)) (spans_of indices (level_categories w k))"
proof -
  define keys where "keys = [admin, max_of (w_road_direction w), max_of (w_roadno w), Some p,
      max_of (w_additional_poi w), max_of (w_cellno w)]"
  note f = windows_poi_fields [of indices p admin, folded w_def]
  have p_in: "Some p \<in> set keys" by (simp add: keys_def)
  from f(6) search_10_11_behind [OF p_in, of indices]
  have fl: "w_floorno w = scan (behind keys) (spans_of indices [ascii ''floorno''])"
    and rm: "w_roomno w = scan (behind (keys @ [max_of (w_floorno w)]))
        (spans_of indices [ascii ''roomno''])"
    by (simp_all add: keys_def)
  have k8: "level_window w 8
      = scan (behind (latest_keys_at w 8)) (spans_of indices (level_categories w 8))"
    by (simp add: level_window_def latest_keys_at_def level_categories_def f(1) f(4)
        after_single)
  have c9: "(\<lambda>start. case max_of (w_additional_poi w) of
                Some m \<Rightarrow> after m start | None \<Rightarrow> after p start)
      = behind [case max_of (w_additional_poi w) of None \<Rightarrow> Some p | Some m \<Rightarrow> Some m]"
    by (cases "max_of (w_additional_poi w)") (simp_all add: after_single)
  have k9: "level_window w 9
      = scan (behind (latest_keys_at w 9)) (spans_of indices (level_categories w 9))"
    using f(5) unfolding c9
    by (simp add: level_window_def latest_keys_at_def level_categories_def f(1))
  have k10: "level_window w 10
      = scan (behind (latest_keys_at w 10)) (spans_of indices (level_categories w 10))"
    using fl by (simp add: level_window_def latest_keys_at_def level_categories_def f(1,2)
        keys_def)
  have k11: "level_window w 11
      = scan (behind (latest_keys_at w 11)) (spans_of indices (level_categories w 11))"
    using rm by (simp add: level_window_def latest_keys_at_def level_categories_def f(1,2)
        keys_def)
  from assms(2) k8 k9 k10 k11 show ?thesis by auto
qed

lemma admin_branch_boundary:
  fixes indices a
  defines "w \<equiv> windows_admin indices a"
  assumes "k \<in> {8, 9, 10, 11}"
  shows "level_window w k
    = scan (behind (latest_keys_at w k)) (spans_of indices (level_categories w k))"
proof -
  define keys where "keys = [Some a, max_of (w_road_direction w), max_of (w_roadno w)]"
  note f = windows_admin_fields [of indices a, folded w_def]
  have a8: "Some a \<in> set keys" by (simp add: keys_def)
  define ap where "ap = scan (behind keys) (spans_of indices [ascii ''houseno''])"
  have a9: "Some a \<in> set (keys @ [max_of ap])" by (simp add: keys_def)
  define cn where "cn = scan (behind (keys @ [max_of ap])) (spans_of indices [ascii ''cellno''])"
  have a10: "Some a \<in> set ((keys @ [max_of ap]) @ [max_of cn])" by (simp add: keys_def)
  have all: "search_8_to_11 indices keys =
      (ap, cn, scan (behind ((keys @ [max_of ap]) @ [max_of cn]))
                 (spans_of indices [ascii ''floorno'']),
       scan (behind (((keys @ [max_of ap]) @ [max_of cn]) @
                [max_of (scan (behind ((keys @ [max_of ap]) @ [max_of cn]))
                           (spans_of indices [ascii ''floorno'']))]))
            (spans_of indices [ascii ''roomno'']))"
    unfolding search_8_to_11_behind [OF a8] ap_def [symmetric]
      search_9_to_11_behind [OF a9] cn_def [symmetric]
      search_10_11_behind [OF a10] ..
  from f(4) all have e8: "w_additional_poi w = ap" and e9: "w_cellno w = cn"
    and e10: "w_floorno w = scan (behind ((keys @ [max_of ap]) @ [max_of cn]))
                 (spans_of indices [ascii ''floorno''])"
    and e11: "w_roomno w = scan (behind (((keys @ [max_of ap]) @ [max_of cn]) @
                [max_of (scan (behind ((keys @ [max_of ap]) @ [max_of cn]))
                           (spans_of indices [ascii ''floorno'']))]))
            (spans_of indices [ascii ''roomno''])"
    by (simp_all add: keys_def)
  have k8: "level_window w 8
      = scan (behind (latest_keys_at w 8)) (spans_of indices (level_categories w 8))"
    using e8 by (simp add: level_window_def latest_keys_at_def level_categories_def f(1,2)
        ap_def keys_def)
  have k9: "level_window w 9
      = scan (behind (latest_keys_at w 9)) (spans_of indices (level_categories w 9))"
    using e9 e8 by (simp add: level_window_def latest_keys_at_def level_categories_def f(1,2)
        cn_def keys_def)
  have k10: "level_window w 10
      = scan (behind (latest_keys_at w 10)) (spans_of indices (level_categories w 10))"
    using e10 e9 e8
    by (simp add: level_window_def latest_keys_at_def level_categories_def f(1,2) keys_def)
  have k11: "level_window w 11
      = scan (behind (latest_keys_at w 11)) (spans_of indices (level_categories w 11))"
    using e11 e10 e9 e8
    by (simp add: level_window_def latest_keys_at_def level_categories_def f(1,2) keys_def)
  from assms(2) k8 k9 k10 k11 show ?thesis by auto
qed

text \<open>
  C7 (amended).  When an anchor exists, each of the levels 8 to 11 is searched among the
  located spans of its categories that start at or after every end in \<open>latest_keys_at\<close>,
  so its text never begins before any of them.  Without a POI anchor these are the
  administrative anchor and the last spans of levels 5, 6 and of the levels from 8 on
  searched before; with a POI anchor, for levels 10 and 11, they are both anchors and the last
  spans of levels 5, 6, 8, 9 (and 10).  Level 8 after a POI anchor is bounded by the POI
  anchor alone, and level 9 by the last span of level 8, or by the POI anchor when level 8
  is empty: the administrative anchor is not consulted for these two.
\<close>

theorem levels_behind_latest_keys:
  assumes "k \<in> {8, 9, 10, 11}"
    and "poi_anchor (level_windows_of indices) \<noteq> None
         \<or> admin_anchor (level_windows_of indices) \<noteq> None"
  shows "level_window (level_windows_of indices) k
           = scan (behind (latest_keys_at (level_windows_of indices) k))
                  (spans_of indices (level_categories (level_windows_of indices) k)) \<and>
         (level_window (level_windows_of indices) k = Some (mn, mx) \<longrightarrow>
            (\<forall>b\<in>set (valid_keys (latest_keys_at (level_windows_of indices) k)).
               snd b \<le> fst mn))"
proof -
  have eq: "level_window (level_windows_of indices) k
           = scan (behind (latest_keys_at (level_windows_of indices) k))
                  (spans_of indices (level_categories (level_windows_of indices) k))"
  proof (cases "poi_min_index indices")
    case (Some p)
    then have "level_windows_of indices = windows_poi indices p (admin_max_index indices)"
      by (simp add: level_windows_of_def)
    with poi_branch_boundary [OF assms(1)] show ?thesis by simp
  next
    case None
    with assms(2) obtain a where a: "admin_max_index indices = Some a"
      by (auto simp: anchors_of_windows)
    with None have "level_windows_of indices = windows_admin indices a"
      by (simp add: level_windows_of_def)
    with admin_branch_boundary [OF assms(1)] show ?thesis by simp
  qed
  have "\<forall>b\<in>set (valid_keys (latest_keys_at (level_windows_of indices) k)). snd b \<le> fst mn"
    if "level_window (level_windows_of indices) k = Some (mn, mx)"
  proof -
    from that eq have "scan (behind (latest_keys_at (level_windows_of indices) k))
        (spans_of indices (level_categories (level_windows_of indices) k)) = Some (mn, mx)"
      by simp
    from scan_Some(2) [OF this] show ?thesis by (simp add: behind_def)
  qed
  with eq show ?thesis by blast
qed

lemmas win_eval = level_windows_of_def
  windows_poi_def windows_admin_def windows_none_def search_10_11_def search_9_to_11_def
  search_8_to_11_def poi_min_index_def admin_max_index_def
  spans_of_def poi_keys_def admin_keys_def road_direction_keys_def additional_poi_keys_def
  keep_min_def keep_max_def keep_both_def scan_def max_of_def after_def valid_keys_def
  keep_latest_def latest_max_index_def ascii_def Let_def

theorem levels_behind_latest_keys_witness:
  "(11::nat) \<in> {8, 9, 10, 11} \<and>
   poi_anchor (level_windows_of example_indices) = Some (11, 14) \<and>
   level_window (level_windows_of example_indices) 11 = Some ((16, 21), (16, 21)) \<and>
   valid_keys (latest_keys_at (level_windows_of example_indices) 11)
     = [(8, 11), (11, 14), (14, 16)] \<and>
   snd (14 :: nat, 16 :: nat) \<le> fst (16 :: nat, 21 :: nat)"
proof -
  have k: "(11::nat) \<in> {8, 9, 10, 11}" by simp
  have w: "level_windows_of example_indices =
    \<lparr>poi_anchor = Some (11, 14), admin_anchor = Some (8, 11),
      w_road_direction = None, w_roadno = None,
      w_additional_poi = Some ((14, 16), 14, 16), w_cellno = None,
      w_floorno = None, w_roomno = Some ((16, 21), 16, 21)\<rparr>"
    by (simp add: example_indices_def win_eval)
  have a: "poi_anchor (level_windows_of example_indices) \<noteq> None
         \<or> admin_anchor (level_windows_of example_indices) \<noteq> None" by (simp add: w)
  have v: "valid_keys (latest_keys_at (level_windows_of example_indices) 11)
     = [(8, 11), (11, 14), (14, 16)]"
    by (simp add: w latest_keys_at_def level_window_def valid_keys_def max_of_def)
  have l: "level_window (level_windows_of example_indices) 11 = Some ((16, 21), (16, 21))"
    by (simp add: w level_window_def)
  from levels_behind_latest_keys [OF k a, of "(16, 21)" "(16, 21)"] l v w show ?thesis by simp
qed

text \<open>
  C7 as stated fails for level 9 after a POI anchor: in \<^verbatim>\<open>abc1ugzs\<close> with the POI
  \<^verbatim>\<open>abc\<close>, the unit number \<^verbatim>\<open>1u\<close> and the city \<^verbatim>\<open>gzs\<close>, level 9 begins at offset 3,
  before the end 8 of the administrative anchor.
\<close>

theorem level9_before_admin_counterexample:
  "build_indices 1000 (PStr (ascii ''abc1ugzs''))
      (strs [(ascii ''poi'', ascii ''abc''), (ascii ''cellno'', ascii ''1u''),
             (ascii ''city'', ascii ''gzs'')]) ([], {})
     = Inr (boundary_indices, {0..<3} \<union> {3..<5} \<union> {5..<8}) \<and>
   admin_anchor (level_windows_of boundary_indices) = Some (5, 8) \<and>
   level_window (level_windows_of boundary_indices) 9 = Some ((3, 5), (3, 5)) \<and>
   level9 (classify_elements_to_11_levels 1000
      (strs [(ascii ''poi'', ascii ''abc''), (ascii ''cellno'', ascii ''1u''),
             (ascii ''city'', ascii ''gzs'')]) (PStr (ascii ''abc1ugzs''))) = ascii ''1u'' \<and>
   \<not> respects_latest_boundary (level_windows_of boundary_indices)"
proof -
  have b: "build_indices 1000 (PStr (ascii ''abc1ugzs''))
      (strs [(ascii ''poi'', ascii ''abc''), (ascii ''cellno'', ascii ''1u''),
             (ascii ''city'', ascii ''gzs'')]) ([], {})
     = Inr (boundary_indices, {0..<3} \<union> {3..<5} \<union> {5..<8})"
    by (simp add: boundary_indices_def build_eval)
  have w: "level_windows_of boundary_indices =
    \<lparr>poi_anchor = Some (0, 3), admin_anchor = Some (5, 8),
      w_road_direction = None, w_roadno = None, w_additional_poi = None,
      w_cellno = Some ((3, 5), 3, 5), w_floorno = None, w_roomno = None\<rparr>"
    by (simp add: boundary_indices_def win_eval)
  have l: "level9 (levels_of (strs [(ascii ''poi'', ascii ''abc''),
       (ascii ''cellno'', ascii ''1u''), (ascii ''city'', ascii ''gzs'')])
       (ascii ''abc1ugzs'') boundary_indices) = ascii ''1u''"
    by (simp add: levels_of_def w level_text_def py_slice_def py_strip_def py_isspace_def
        ascii_def)
  have r: "\<not> respects_latest_boundary (level_windows_of boundary_indices)"
    by (simp add: w respects_latest_boundary_def level_window_def assigned_before_def
        valid_keys_def max_of_def)
  from b l r w show ?thesis
    by (simp add: classify_of_build [OF b] level_window_def)
qed

lemma spans_of_all_spans: "x \<in> set (spans_of indices keys) \<Longrightarrow> x \<in> set (all_spans indices)"
proof -
  assume "x \<in> set (spans_of indices keys)"
  then obtain key l where "map_of indices key = Some l" and x: "x \<in> set l"
    by (auto simp: spans_of_def split: option.splits) metis
  then have "(key, l) \<in> set indices" by (simp add: map_of_SomeD)
  with x show ?thesis by (force simp: all_spans_def)
qed

lemma spans_disjoint_pair:
  "spans_disjoint xs \<Longrightarrow> x \<in> set xs \<Longrightarrow> y \<in> set xs \<Longrightarrow> x \<noteq> y \<Longrightarrow>
   {fst x..<snd x} \<inter> {fst y..<snd y} = {}"
  by (induction xs) auto

lemma located_order:
  assumes "located addr xs used" and "x \<in> set xs" and "y \<in> set xs" and "fst x < fst y"
  shows "snd x \<le> fst y"
proof (rule ccontr)
  assume "\<not> snd x \<le> fst y"
  with assms(4) have in_x: "fst y \<in> {fst x..<snd x}" by simp
  from assms(1,3) have "fst y < snd y \<or> y = (0, 0)" by (simp add: located_def)
  with assms(4) have in_y: "fst y \<in> {fst y..<snd y}" by auto
  from assms(4) have ne: "x \<noteq> y" by auto
  from assms(1) have d: "spans_disjoint xs" by (simp add: located_def)
  from spans_disjoint_pair [OF d assms(2,3) ne] in_x in_y show False by blast
qed

lemma level5_window_poi:
  "w_road_direction (windows_poi indices p admin)
     = scan (level5_eligible p admin) (spans_of indices road_direction_keys)"
proof -
  have "(\<lambda>start. after a start \<and> start < fst p) = level5_eligible p (Some a)" for a
    by (rule ext) (auto simp: level5_eligible_def after_iff)
  moreover have "(\<lambda>start. start < fst p) = level5_eligible p None"
    by (rule ext) (simp add: level5_eligible_def)
  ultimately show ?thesis
    by (cases admin) (simp_all add: windows_poi_fields(3))
qed

text \<open>
  C10.  When a POI anchor \<open>p\<close> exists, level 5 is searched among the road and direction
  spans that start before the start of \<open>p\<close> and, when there is an administrative anchor,
  at or after its end: there is no level 5 exactly when no such span exists; otherwise both
  ends of the slice are such spans and every such span starts between them.  The slice ends
  at or before the start of \<open>p\<close>, so it shares no offset with a road or direction span
  that starts at or after the start of \<open>p\<close>.  The witness is an address where such a span
  is the slice of level 8.
\<close>

theorem level5_before_poi:
  assumes "distinct (map fst entities)"
    and "build_indices depth (PStr addr) entities ([], {}) = Inr (indices, used)"
    and "poi_anchor (level_windows_of indices) = Some p"
  shows
    "(w_road_direction (level_windows_of indices) = None \<longleftrightarrow>
        (\<forall>x\<in>set (spans_of indices road_direction_keys).
           \<not> level5_eligible p (admin_anchor (level_windows_of indices)) (fst x))) \<and>
     (w_road_direction (level_windows_of indices) = Some (mn, mx) \<longrightarrow>
        mn \<in> set (spans_of indices road_direction_keys) \<and>
        mx \<in> set (spans_of indices road_direction_keys) \<and>
        level5_eligible p (admin_anchor (level_windows_of indices)) (fst mn) \<and>
        level5_eligible p (admin_anchor (level_windows_of indices)) (fst mx) \<and>
        (\<forall>x\<in>set (spans_of indices road_direction_keys).
           level5_eligible p (admin_anchor (level_windows_of indices)) (fst x) \<longrightarrow>
           fst mn \<le> fst x \<and> fst x \<le> fst mx) \<and>
        snd mx \<le> fst p \<and>
        (\<forall>x\<in>set (spans_of indices road_direction_keys).
           fst p \<le> fst x \<longrightarrow> {fst x..<snd x} \<inter> {fst mn..<snd mx} = {}))"
proof -
  have "located addr (all_spans ([] :: indices)) {}"
    by (simp add: located_def all_spans_def)
  with build_indices_located [OF assms(2) assms(1)]
  have loc: "located addr (all_spans indices) used" by simp
  from assms(3) have pm: "poi_min_index indices = Some p" by (simp add: anchors_of_windows)
  then have w: "level_windows_of indices = windows_poi indices p (admin_max_index indices)"
    by (simp add: level_windows_of_def)
  have adm: "admin_anchor (level_windows_of indices) = admin_max_index indices"
    by (rule anchors_of_windows)
  have rd: "w_road_direction (level_windows_of indices)
      = scan (level5_eligible p (admin_max_index indices))
             (spans_of indices road_direction_keys)"
    unfolding w by (rule level5_window_poi)
  from fold_keep_min_Some [of "spans_of indices poi_keys" None p] pm
  have "p \<in> set (spans_of indices poi_keys)" by (simp add: poi_min_index_def)
  then have p_in: "p \<in> set (all_spans indices)" by (rule spans_of_all_spans)
  have none: "w_road_direction (level_windows_of indices) = None \<longleftrightarrow>
        (\<forall>x\<in>set (spans_of indices road_direction_keys).
           \<not> level5_eligible p (admin_anchor (level_windows_of indices)) (fst x))"
    unfolding rd adm by (rule scan_None)
  have some: "mn \<in> set (spans_of indices road_direction_keys) \<and>
        mx \<in> set (spans_of indices road_direction_keys) \<and>
        level5_eligible p (admin_anchor (level_windows_of indices)) (fst mn) \<and>
        level5_eligible p (admin_anchor (level_windows_of indices)) (fst mx) \<and>
        (\<forall>x\<in>set (spans_of indices road_direction_keys).
           level5_eligible p (admin_anchor (level_windows_of indices)) (fst x) \<longrightarrow>
           fst mn \<le> fst x \<and> fst x \<le> fst mx) \<and>
        snd mx \<le> fst p \<and>
        (\<forall>x\<in>set (spans_of indices road_direction_keys).
           fst p \<le> fst x \<longrightarrow> {fst x..<snd x} \<inter> {fst mn..<snd mx} = {})"
    if "w_road_direction (level_windows_of indices) = Some (mn, mx)"
  proof -
    from that rd have sc: "scan (level5_eligible p (admin_max_index indices))
        (spans_of indices road_direction_keys) = Some (mn, mx)" by simp
    note s = scan_Some [OF sc]
    from s(4) have "fst mx < fst p" by (simp add: level5_eligible_def)
    moreover from s(3) have "mx \<in> set (all_spans indices)" by (rule spans_of_all_spans)
    ultimately have end_le: "snd mx \<le> fst p" using loc p_in by (intro located_order)
    then have "\<forall>x\<in>set (spans_of indices road_direction_keys).
        fst p \<le> fst x \<longrightarrow> {fst x..<snd x} \<inter> {fst mn..<snd mx} = {}" by auto
    with s end_le show ?thesis unfolding adm by blast
  qed
  from none some show ?thesis by blast
qed

theorem level5_before_poi_witness:
  "distinct (map fst (strs poi_road_entities)) \<and>
   build_indices 1000 (PStr poi_road_address) (strs poi_road_entities) ([], {})
     = Inr (poi_road_indices, {0..<3} \<union> {3..<6} \<union> {9..<12} \<union> {6..<9}) \<and>
   poi_anchor (level_windows_of poi_road_indices) = Some (6, 9) \<and>
   spans_of poi_road_indices road_direction_keys = [(3, 6), (9, 12)] \<and>
   w_road_direction (level_windows_of poi_road_indices) = Some ((3, 6), (3, 6)) \<and>
   w_additional_poi (level_windows_of poi_road_indices) = Some ((9, 12), (9, 12)) \<and>
   level5 (classify_elements_to_11_levels 1000 (strs poi_road_entities)
       (PStr poi_road_address))
     = ascii ''zsl'' \<and>
   level8 (classify_elements_to_11_levels 1000 (strs poi_road_entities)
       (PStr poi_road_address))
     = ascii ''xyl''"
proof -
  have d: "distinct (map fst (strs poi_road_entities))"
    by (simp add: poi_road_entities_def strs_def ascii_def)
  have b: "build_indices 1000 (PStr poi_road_address) (strs poi_road_entities) ([], {})
     = Inr (poi_road_indices, {0..<3} \<union> {3..<6} \<union> {9..<12} \<union> {6..<9})"
    by (simp add: poi_road_address_def poi_road_entities_def poi_road_indices_def build_eval
        py_split.simps py_strip_def py_isspace_def)
  have w: "level_windows_of poi_road_indices =
    \<lparr>poi_anchor = Some (6, 9), admin_anchor = Some (0, 3),
      w_road_direction = Some ((3, 6), (3, 6)), w_roadno = None,
      w_additional_poi = Some ((9, 12), (9, 12)),
      w_cellno = None, w_floorno = None, w_roomno = None\<rparr>"
    by (simp add: poi_road_indices_def win_eval)
  have p: "poi_anchor (level_windows_of poi_road_indices) = Some (6, 9)" by (simp add: w)
  have sp: "spans_of poi_road_indices road_direction_keys = [(3, 6), (9, 12)]"
    by (simp add: poi_road_indices_def spans_of_def road_direction_keys_def ascii_def)
  have l: "level5 (levels_of (strs poi_road_entities) poi_road_address poi_road_indices)
      = ascii ''zsl''"
    "level8 (levels_of (strs poi_road_entities) poi_road_address poi_road_indices)
      = ascii ''xyl''"
    by (simp_all add: levels_of_def w level_text_def py_slice_def py_strip_def py_isspace_def
        poi_road_address_def ascii_def)
  from level5_before_poi [OF d b p, of "(3, 6)" "(3, 6)"] d b p sp l w show ?thesis
    by (simp add: classify_of_build [OF b])
qed

section \<open>Decoding the encoder's output\<close>



lemma after_hyphen_S [simp]: "after_hyphen (ascii ''S-'' @ ty) = ty"
  by (simp add: after_hyphen_def ascii_def hyphen_def)

lemma prefix_consts [simp]:
  "prefix (ascii ''S-'') (ascii ''S-'' @ ty)" "prefix (ascii ''B-'') (ascii ''B-'' @ ty)"
  "prefix (ascii ''I-'') (ascii ''I-'' @ ty)" "prefix (ascii ''E-'') (ascii ''E-'' @ ty)"
  "\<not> prefix (ascii ''S-'') (ascii ''B-'' @ ty)"
  "\<not> prefix (ascii ''B-'') (ascii ''I-'' @ ty)" "\<not> prefix (ascii ''S-'') (ascii ''I-'' @ ty)"
  "\<not> prefix (ascii ''B-'') (ascii ''E-'' @ ty)" "\<not> prefix (ascii ''S-'') (ascii ''E-'' @ ty)"
  "\<not> prefix (ascii ''I-'') (ascii ''E-'' @ ty)"
  by (simp_all add: ascii_def)










lemma decoded_values_Nil [simp]: "decoded_values [] c = []"
  by (simp add: decoded_values_def)



lemma locate_entity_type: "e \<in> set (locate_entity s ty v) \<Longrightarrow> ep_type e = ty"
  by (auto simp: locate_entity_def split: if_splits option.splits)




lemma entity_positions_Cons:
  "entity_positions ((ty, v) # comps) s
     = (if v = [] then [] else concat (map (locate_entity s ty) (candidate_entities v)))
       @ entity_positions comps s"
  by (simp add: entity_positions_def)

lemma entity_positions_Nil [simp]: "entity_positions [] s = []"
  by (simp add: entity_positions_def)

lemma entity_positions_types:
  "e \<in> set (entity_positions comps s) \<Longrightarrow> ep_type e \<in> fst ` set comps"
  by (induction comps) (auto simp: entity_positions_Cons dest: locate_entity_type split: if_splits)







end
